theory Spec2Isabelle
  imports Main "HOL-Library.Word"
begin

unbundle bit_operations_syntax

section \<open>Colours, the hash and the run opcode (rpk.h, lines 134-177)\<close>

text \<open>
  The C union \<open>color\<close> overlays a 32-bit word \<open>rgba\<close> on the four bytes
  \<open>red\<close>, \<open>green\<close>, \<open>blue\<close>, \<open>alpha\<close> (in this order in memory).  The 32-bit
  view is used for whole-pixel equality (\<open>EQCOLOR\<close>), for the whole-pixel XOR and for
  tests against masks; all three act on each byte separately, so the model keeps the
  four bytes and is independent of the byte order of the machine.
\<close>

type_synonym byte = "8 word"

record color =
  red :: byte
  green :: byte
  blue :: byte
  alpha :: byte

definition mk_color :: "byte \<Rightarrow> byte \<Rightarrow> byte \<Rightarrow> byte \<Rightarrow> color" where
  "mk_color r g b a = \<lparr>red = r, green = g, blue = b, alpha = a\<rparr>"

text \<open>\<open>color cache[128] = {0}\<close>: every slot is the all-zero pixel.\<close>

definition zero_color :: color where
  "zero_color = mk_color 0 0 0 0"

text \<open>\<open>color current = (color){.alpha=255}\<close>.\<close>

definition init_color :: color where
  "init_color = mk_color 0 0 0 255"

definition init_cache :: "color list" where
  "init_cache = replicate 128 zero_color"

text \<open>
  \<open>#define HASH(C) (((((88^C.red)*13^C.green)*13^C.blue)*13^C.alpha)&127)\<close>, computed
  in \<open>int\<close> after the integer promotions; the value stays below \<open>2^20\<close>, so the
  natural numbers model it exactly.  In C, \<open>*\<close> binds tighter than \<open>^\<close>.
\<close>

definition HASH :: "color \<Rightarrow> nat" where
  "HASH C = ((((((88 XOR unat (red C)) * 13) XOR unat (green C)) * 13
                 XOR unat (blue C)) * 13) XOR unat (alpha C)) AND 127"

text \<open>\<open>diff.rgba = current.rgba ^ last.rgba\<close>.\<close>

definition color_xor :: "color \<Rightarrow> color \<Rightarrow> color" where
  "color_xor a b = mk_color (red a XOR red b) (green a XOR green b)
                            (blue a XOR blue b) (alpha a XOR alpha b)"

text \<open>\<open>!(diff.rgba & 0xFCFCFCFC)\<close>: every component of the difference fits in two bits.\<close>

definition smallmask :: "color \<Rightarrow> bool" where
  "smallmask d \<longleftrightarrow> red d AND 0xFC = 0 \<and> green d AND 0xFC = 0
                   \<and> blue d AND 0xFC = 0 \<and> alpha d AND 0xFC = 0"

text \<open>
  \<open>!(diff.rgba & type2mask.rgba)\<close> with
  \<open>type2mask = {.red = 0xE0, .green = 0xC0, .blue = 0xE0, .alpha = 0xFF}\<close>.
\<close>

definition type2mask :: "color \<Rightarrow> bool" where
  "type2mask d \<longleftrightarrow> red d AND 0xE0 = 0 \<and> green d AND 0xC0 = 0
                   \<and> blue d AND 0xE0 = 0 \<and> alpha d AND 0xFF = 0"

text \<open>
  \<open>#define PACKRUN(type,length) (128+((type)<<5)+(length))\<close>, printed with \<open>%c\<close>,
  that is, converted to \<open>unsigned char\<close>.
\<close>

definition PACKRUN :: "nat \<Rightarrow> nat \<Rightarrow> byte" where
  "PACKRUN type len = of_nat (128 + push_bit 5 type + len)"

section \<open>The encoder (rpk.h, lines 140-167 and 188-270)\<close>

text \<open>
  The encoder's local variables.  \<open>runtype\<close> is a \<open>uint8_t\<close> initialised to \<open>-1\<close>,
  that is 255.  \<open>run\<close> is a \<open>uint32_t\<close>; it is modelled as a natural number: a run of
  type 0 stops growing at 526352 and a write to \<open>buffer\<close> at an index of 128 or more is
  the error \<open>BufferOverrun\<close> of the model, so the counter never comes near \<open>2^32\<close>.
  \<open>e_out\<close> is what has been written to \<open>outfile\<close>; the byte counter \<open>ct\<close> of the
  source is the number of bytes written and is not kept separately.
\<close>

datatype error = BadMagic | Truncated | BufferOverrun | SinkFailure

record enc_state =
  e_cache :: "color list"
  e_current :: color
  e_buffer :: "byte list"
  e_runtype :: byte
  e_run :: nat
  e_out :: "byte list"

text \<open>
  \<open>uint8_t buffer[128]\<close> is not initialised by the source; the model starts it with
  zeros.  No byte of it is written to the file before the encoder has stored it.
\<close>

definition enc_init :: enc_state where
  "enc_init = \<lparr>e_cache = init_cache, e_current = init_color,
               e_buffer = replicate 128 0, e_runtype = 255, e_run = 0, e_out = []\<rparr>"

text \<open>\<open>MIN(1<<(runtype-1),channels)\<close>: the number of argument bytes of one pixel.\<close>

definition argbytes :: "nat \<Rightarrow> byte \<Rightarrow> nat" where
  "argbytes channels rt = min (push_bit (unat rt - 1) 1) channels"

text \<open>
  The macro \<open>RPK_PRINT(b)\<close>.  In the branch of a run of type 0 the source leaves
  \<open>runtype\<close> as it is and overwrites \<open>run\<close> while it computes the length bytes; the
  macro ends with \<open>run = 0\<close>.
\<close>

definition RPK_PRINT :: "nat \<Rightarrow> nat \<Rightarrow> enc_state \<Rightarrow> enc_state" where
  "RPK_PRINT channels b st =
     (let st1 =
        (if e_run st \<noteq> 0 then
           (if e_runtype st \<noteq> 0 then
              st\<lparr>e_out := e_out st @ [PACKRUN (unat (e_runtype st)) (e_run st - 1)]
                             @ take (argbytes channels (e_runtype st) * e_run st) (e_buffer st),
                 e_runtype := 255\<rparr>
            else if e_run st \<le> 16 then
              st\<lparr>e_out := e_out st @ [PACKRUN (unat (e_runtype st)) (e_run st - 1)]\<rparr>
            else
              (let run = e_run st - 17 in
               if run < 2 ^ 11 then
                 st\<lparr>e_out := e_out st @ [PACKRUN (unat (e_runtype st)) (16 + drop_bit 8 run),
                                          of_nat (run AND 0xFF)]\<rparr>
               else
                 (let run = run - 2 ^ 11 in
                  st\<lparr>e_out := e_out st @ [PACKRUN (unat (e_runtype st)) (24 + drop_bit 16 run),
                                           of_nat (drop_bit 8 run AND 0xFF),
                                           of_nat (run AND 0xFF)]\<rparr>)))
         else st);
         st2 = (if b < 128 then st1\<lparr>e_out := e_out st1 @ [of_nat b]\<rparr> else st1)
      in st2\<lparr>e_run := 0\<rparr>)"

text \<open>
  A store \<open>buffer[i] = v\<close>.  The array has 128 bytes; a store outside it is undefined
  behaviour in C and is the error \<open>BufferOverrun\<close> here.
\<close>

definition buf_store :: "nat \<Rightarrow> byte \<Rightarrow> enc_state \<Rightarrow> error + enc_state" where
  "buf_store i v st =
     (if i < 128 then Inr (st\<lparr>e_buffer := (e_buffer st)[i := v]\<rparr>) else Inl BufferOverrun)"

definition bind_enc :: "error + enc_state \<Rightarrow> (enc_state \<Rightarrow> error + enc_state) \<Rightarrow> error + enc_state" where
  "bind_enc r f = (case r of Inl e \<Rightarrow> Inl e | Inr st \<Rightarrow> f st)"

text \<open>\<open>cache[HASH(current)]=current\<close> (line 260).\<close>

definition cache_put :: "color \<Rightarrow> color list \<Rightarrow> color list" where
  "cache_put c cache = cache[HASH c := c]"

text \<open>
  The argument byte of a pixel of a run of type 1,
  \<open>(diff.alpha|diff.blue<<2|diff.green<<4|diff.red<<6)&0xFF\<close>, and the statement at
  the label \<open>smalldiff\<close> (lines 237-238), followed by the cache store of line 260,
  which the jump from line 227 reaches as well.
\<close>

definition type1_arg :: "color \<Rightarrow> byte" where
  "type1_arg diff =
     alpha diff OR push_bit 2 (blue diff) OR push_bit 4 (green diff) OR push_bit 6 (red diff)"

definition smalldiff :: "color \<Rightarrow> color \<Rightarrow> enc_state \<Rightarrow> error + enc_state" where
  "smalldiff diff cur st =
     bind_enc (buf_store (e_run st) (type1_arg diff) st)
       (\<lambda>st. Inr (st\<lparr>e_run := e_run st + 1, e_runtype := 1,
                      e_cache := cache_put cur (e_cache st)\<rparr>))"

text \<open>
  \<open>if (run && runtype!=t || run==32) { RPK_PRINT(128); run=0; }\<close>, the guard that
  opens the branches of the run types \<open>t = 1, 2, 3\<close> (lines 233, 240 and 249).
\<close>

definition flush_for :: "nat \<Rightarrow> byte \<Rightarrow> enc_state \<Rightarrow> enc_state" where
  "flush_for channels t st =
     (if (e_run st \<noteq> 0 \<and> e_runtype st \<noteq> t) \<or> e_run st = 32
      then (RPK_PRINT channels 128 st)\<lparr>e_run := 0\<rparr> else st)"

text \<open>
  Lines 240-247: a pixel of a run of type 2, with the argument bytes
  \<open>(diff.red<<3|LRS(diff.green,3))&0xFF\<close> and \<open>(diff.green<<5|diff.blue&0x1F)&0xFF\<close>.
\<close>

definition type2_arg0 :: "color \<Rightarrow> byte" where
  "type2_arg0 diff = push_bit 3 (red diff) OR drop_bit 3 (green diff)"

definition type2_arg1 :: "color \<Rightarrow> byte" where
  "type2_arg1 diff = push_bit 5 (green diff) OR (blue diff AND 0x1F)"

definition type2step :: "nat \<Rightarrow> color \<Rightarrow> color \<Rightarrow> enc_state \<Rightarrow> error + enc_state" where
  "type2step channels diff cur st0 =
     (let st = flush_for channels 2 st0
      in bind_enc (buf_store (e_run st * 2) (type2_arg0 diff) st)
          (\<lambda>st. bind_enc (buf_store (e_run st * 2 + 1) (type2_arg1 diff) st)
          (\<lambda>st. Inr (st\<lparr>e_run := e_run st + 1, e_runtype := 2,
                         e_cache := cache_put cur (e_cache st)\<rparr>))))"

text \<open>Lines 249-258: a pixel of a run of type 3.\<close>

definition type3step :: "nat \<Rightarrow> color \<Rightarrow> enc_state \<Rightarrow> error + enc_state" where
  "type3step channels cur st0 =
     (let st = flush_for channels 3 st0
      in bind_enc (buf_store (e_run st * channels) (red cur) st)
          (\<lambda>st. bind_enc (buf_store (e_run st * channels + 1) (green cur) st)
          (\<lambda>st. bind_enc (buf_store (e_run st * channels + 2) (blue cur) st)
          (\<lambda>st. bind_enc (if channels = 4 then buf_store (e_run st * 4 + 3) (alpha cur) st
                           else Inr st)
          (\<lambda>st. Inr (st\<lparr>e_run := e_run st + 1, e_runtype := 3,
                         e_cache := cache_put cur (e_cache st)\<rparr>))))))"

text \<open>
  The body of the \<open>for\<close> loop (lines 210-261) for one pixel \<open>px = row[i]\<close>.
  The jump of line 227 goes to the label \<open>smalldiff\<close> past the guard of line 233.
\<close>

definition enc_pixel :: "nat \<Rightarrow> enc_state \<Rightarrow> color \<Rightarrow> error + enc_state" where
  "enc_pixel channels st0 px =
     (let prev = e_current st0; st = st0\<lparr>e_current := px\<rparr> in
      if px = prev then
        (if e_runtype st = 0 \<and> e_run st < 526352 then Inr (st\<lparr>e_run := e_run st + 1\<rparr>)
         else Inr ((RPK_PRINT channels 128 st)\<lparr>e_run := 1, e_runtype := 0\<rparr>))
      else
        (let diff = color_xor px prev in
         if smallmask diff \<and> e_run st \<noteq> 0 \<and> e_runtype st = 1 then smalldiff diff px st
         else if px = e_cache st ! HASH px then Inr (RPK_PRINT channels (HASH px) st)
         else if smallmask diff \<and> e_runtype st \<noteq> 2 then
           smalldiff diff px (flush_for channels 1 st)
         else if type2mask diff then type2step channels diff px st
         else type3step channels px st))"

text \<open>The \<open>for\<close> loop over the pixels of one row, stopping at the first error.\<close>

fun enc_pixels :: "nat \<Rightarrow> enc_state \<Rightarrow> color list \<Rightarrow> error + enc_state" where
  "enc_pixels channels st [] = Inr st"
| "enc_pixels channels st (px # pxs) =
     (case enc_pixel channels st px of
        Inl e \<Rightarrow> Inl e
      | Inr st' \<Rightarrow> enc_pixels channels st' pxs)"

text \<open>
  The rows come from the PNG library (\<open>spng_decode_row\<close>), which is not part of
  this repository.  Its contract, the one the comment of line 204 complains about:
  a call writes the next row of the image into the buffer and returns \<open>0\<close>, except
  that the call that delivers the last row returns \<open>SPNG_EOI\<close>; a call after the
  last row returns \<open>SPNG_EOI\<close> and leaves the buffer as it is.  The model of the
  library is the list of the rows of the image not yet delivered (a PNG that
  decodes without error, not interlaced); the call returns the code, the content
  of the buffer and the rows left.
\<close>

datatype spng_ret = SPNG_OK | SPNG_EOI

fun spng_decode_row :: "color list \<Rightarrow> color list list \<Rightarrow> spng_ret \<times> color list \<times> color list list" where
  "spng_decode_row buf [] = (SPNG_EOI, buf, [])"
| "spng_decode_row buf [r] = (SPNG_EOI, r, [])"
| "spng_decode_row buf (r # rs) = (SPNG_OK, r, rs)"

text \<open>
  The \<open>while\<close> loop of lines 205-264 with its guard
  \<open>!(ret = spng_decode_row(...)) || lastrow && ret == SPNG_EOI\<close>: the body runs when
  the call returned \<open>0\<close>, or returned \<open>SPNG_EOI\<close> while \<open>lastrow\<close> is set; the body sets
  \<open>lastrow = !ret\<close> (line 207) and encodes the pixels of the buffer.  \<open>done\<close> is
  written and never read.
\<close>

function row_loop ::
  "nat \<Rightarrow> bool \<Rightarrow> color list \<Rightarrow> enc_state \<Rightarrow> color list list \<Rightarrow> error + enc_state" where
  "row_loop channels lastrow buf st rows =
     (case spng_decode_row buf rows of
        (ret, buf', rows') \<Rightarrow>
          if ret = SPNG_OK \<or> (lastrow \<and> ret = SPNG_EOI) then
            (case enc_pixels channels st buf' of
               Inl e \<Rightarrow> Inl e
             | Inr st' \<Rightarrow> row_loop channels (ret = SPNG_OK) buf' st' rows')
          else Inr st)"
  by pat_completeness auto

termination
  apply (relation "measure (\<lambda>(channels, lastrow, buf, st, rows). 2 * length rows + (if lastrow then 1 else 0))")
   apply simp
  subgoal for channels lastrow buf st rows
    by (cases "(buf, rows)" rule: spng_decode_row.cases) auto
  done

declare row_loop.simps [simp del]

text \<open>
  The loop as \<open>rpk_encode\<close> enters it: \<open>lastrow = 0\<close> (line 197) and a buffer
  \<open>row[width]\<close> that nothing has written yet.  The body never runs on that content
  (lemma \<open>row_loop_buffer\<close> below), so the model starts with the empty list.
\<close>

definition enc_rows :: "nat \<Rightarrow> enc_state \<Rightarrow> color list list \<Rightarrow> error + enc_state" where
  "enc_rows channels st rows = row_loop channels False [] st rows"

text \<open>
  \<open>rpk_encode\<close>: the loop over the rows, then \<open>RPK_PRINT(0)\<close> (line 266).  The result is the
  sequence of bytes written to \<open>outfile\<close>.
\<close>

definition rpk_encode :: "nat \<Rightarrow> color list list \<Rightarrow> error + byte list" where
  "rpk_encode channels rows =
     (case enc_rows channels enc_init rows of
        Inl e \<Rightarrow> Inl e
      | Inr st \<Rightarrow> Inr (e_out (RPK_PRINT channels 0 st)))"

section \<open>The decoder (rpk.h, lines 272-344)\<close>

text \<open>
  The input file is the list of the bytes not yet read.  \<open>RPK_READ(a,1,n,f)\<close> is
  \<open>if (fread(a,1,n,f)!=n) return -1\<close>: a read of \<open>n\<close> bytes that meets the end of
  the file first consumes what is left and makes the decoder return.  A failed call
  is \<open>Inl (e, rest)\<close>, where \<open>rest\<close> is the input left unread at that moment.
  The source returns the same \<open>-1\<close> wherever it fails; the constructors of \<open>error\<close>
  name the place of the failure.
\<close>

type_synonym 'a reader = "(error \<times> byte list) + 'a"

record dec_state =
  d_cache :: "color list"
  d_current :: color
  d_runtype :: byte
  d_run :: nat

text \<open>
  \<open>uint8_t runtype\<close> is not initialised by the source; it is read only after a RUN
  opcode has set it, and the model starts it with 0.
\<close>

definition dec_init :: dec_state where
  "dec_init = \<lparr>d_cache = init_cache, d_current = init_color, d_runtype = 0, d_run = 0\<rparr>"

text \<open>The bytes of the union in memory order.\<close>

definition color_bytes :: "color \<Rightarrow> byte list" where
  "color_bytes c = [red c, green c, blue c, alpha c]"

text \<open>
  \<open>fread(&current,1,channels,infile)\<close> overwrites the first \<open>channels\<close> bytes of
  \<open>current\<close>.
\<close>

fun set_bytes :: "byte list \<Rightarrow> color \<Rightarrow> color" where
  "set_bytes [] c = c"
| "set_bytes [r] c = c\<lparr>red := r\<rparr>"
| "set_bytes [r, g] c = c\<lparr>red := r, green := g\<rparr>"
| "set_bytes [r, g, b] c = c\<lparr>red := r, green := g, blue := b\<rparr>"
| "set_bytes (r # g # b # a # _) c = c\<lparr>red := r, green := g, blue := b, alpha := a\<rparr>"

text \<open>\<open>runtype = LRS(cbyte&0x60,5)\<close> (line 296).\<close>

definition opcode_type :: "byte \<Rightarrow> byte" where
  "opcode_type cbyte = drop_bit 5 (cbyte AND 0x60)"

text \<open>
  Lines 296-312: the run length of a RUN opcode \<open>cbyte\<close>, with the extra length
  bytes of a run of type 0.  The result is the value of \<open>run\<close> after \<open>run++\<close>.
\<close>

definition read_run :: "byte \<Rightarrow> byte list \<Rightarrow> (nat \<times> byte list) reader" where
  "read_run cbyte bs =
     (let runtype = opcode_type cbyte; run = unat (cbyte AND 0x1F) in
      if runtype = 0 \<and> run \<ge> 16 then
        (let run = run AND 15 in
         case (if run \<ge> 8 then
                 (case bs of
                    [] \<Rightarrow> Inl (Truncated, [])
                  | t # rest \<Rightarrow> Inr ((push_bit 8 (run AND 7) OR unat t) + 8, rest))
               else Inr (run, bs)) of
           Inl e \<Rightarrow> Inl e
         | Inr (run, bs) \<Rightarrow>
             (case bs of
                [] \<Rightarrow> Inl (Truncated, [])
              | t # rest \<Rightarrow> Inr ((push_bit 8 run OR unat t) + 16 + 1, rest)))
      else Inr (run + 1, bs))"

text \<open>
  The \<open>switch (runtype)\<close> of lines 315-331: the new value of \<open>current\<close> and the
  input left.  There is no case for type 0, which leaves \<open>current\<close> as it is.
  \<open>current\<close> has four bytes, so a read of more than four bytes into it
  (\<open>channels > 4\<close>) is the error \<open>BufferOverrun\<close>.
\<close>

definition next_color :: "nat \<Rightarrow> byte \<Rightarrow> color \<Rightarrow> byte list \<Rightarrow> (color \<times> byte list) reader" where
  "next_color channels runtype cur bs =
     (if runtype = 1 then
        (case bs of
           [] \<Rightarrow> Inl (Truncated, [])
         | t # rest \<Rightarrow>
             Inr (cur\<lparr>red := red cur XOR (drop_bit 6 t AND 3),
                      green := green cur XOR (drop_bit 4 t AND 3),
                      blue := blue cur XOR (drop_bit 2 t AND 3),
                      alpha := (if channels > 3 then alpha cur XOR (t AND 3)
                                else alpha cur)\<rparr>, rest))
      else if runtype = 2 then
        (case bs of
           t0 # t1 # rest \<Rightarrow>
             Inr (cur\<lparr>red := red cur XOR (drop_bit 3 t0 AND 0x1F),
                      green := green cur XOR (push_bit 3 (t0 AND 7) OR drop_bit 5 t1),
                      blue := blue cur XOR (t1 AND 0x1F)\<rparr>, rest)
         | _ \<Rightarrow> Inl (Truncated, []))
      else if runtype = 3 then
        (if length bs < channels then Inl (Truncated, [])
         else if 4 < channels then Inl (BufferOverrun, bs)
         else Inr (set_bytes (take channels bs) cur, drop channels bs))
      else Inr (cur, bs))"

text \<open>
  From the label \<open>runcont\<close> (lines 314-332): \<open>run--\<close>, the \<open>switch\<close> on the run
  type, and the cache store of line 332, which every run type reaches.
\<close>

definition run_step :: "nat \<Rightarrow> dec_state \<Rightarrow> byte list \<Rightarrow> (dec_state \<times> byte list) reader" where
  "run_step channels st0 bs =
     (let st = st0\<lparr>d_run := d_run st0 - 1\<rparr> in
      case next_color channels (d_runtype st) (d_current st) bs of
        Inl e \<Rightarrow> Inl e
      | Inr (cur', rest) \<Rightarrow>
          Inr (st\<lparr>d_current := cur', d_cache := cache_put cur' (d_cache st)\<rparr>, rest))"

text \<open>
  The body of the \<open>for\<close> loop (lines 288-335) for one pixel: the new state, the
  input left and the \<open>channels\<close> bytes that \<open>memcpy\<close> puts into the row.
\<close>

definition dec_pixel ::
  "nat \<Rightarrow> dec_state \<Rightarrow> byte list \<Rightarrow> (dec_state \<times> byte list \<times> byte list) reader" where
  "dec_pixel channels st bs =
     (case (if d_run st \<noteq> 0 then run_step channels st bs
            else
              (case bs of
                 [] \<Rightarrow> Inl (Truncated, [])
               | cbyte # bs1 \<Rightarrow>
                   if cbyte AND 0x80 = 0 then
                     Inr (st\<lparr>d_current := d_cache st ! unat cbyte\<rparr>, bs1)
                   else
                     (case read_run cbyte bs1 of
                        Inl e \<Rightarrow> Inl e
                      | Inr (run, bs2) \<Rightarrow>
                          run_step channels
                            (st\<lparr>d_runtype := opcode_type cbyte, d_run := run\<rparr>)
                            bs2))) of
        Inl e \<Rightarrow> Inl e
      | Inr (st', rest) \<Rightarrow>
          if 4 < channels then Inl (BufferOverrun, rest)
          else Inr (st', rest, take channels (color_bytes (d_current st'))))"

text \<open>The \<open>for\<close> loop: \<open>n\<close> pixels of one row.\<close>

fun dec_pixels ::
  "nat \<Rightarrow> nat \<Rightarrow> dec_state \<Rightarrow> byte list \<Rightarrow> (dec_state \<times> byte list \<times> byte list) reader" where
  "dec_pixels channels 0 st bs = Inr (st, bs, [])"
| "dec_pixels channels (Suc n) st bs =
     (case dec_pixel channels st bs of
        Inl e \<Rightarrow> Inl e
      | Inr (st', rest, px) \<Rightarrow>
          (case dec_pixels channels n st' rest of
             Inl e \<Rightarrow> Inl e
           | Inr (st'', rest', row) \<Rightarrow> Inr (st'', rest', px @ row)))"

text \<open>
  The \<open>do ... while (!ret)\<close> loop hands every row to the PNG library
  (\<open>spng_encode_row\<close>), which answers 0 while it expects further rows and
  \<open>SPNG_EOI\<close> after the last row of the image.  \<open>dec_rows\<close> is the loop for an image
  of \<open>h\<close> rows.
\<close>

fun dec_rows ::
  "nat \<Rightarrow> nat \<Rightarrow> nat \<Rightarrow> dec_state \<Rightarrow> byte list
     \<Rightarrow> (dec_state \<times> byte list \<times> byte list list) reader" where
  "dec_rows channels width 0 st bs = Inr (st, bs, [])"
| "dec_rows channels width (Suc h) st bs =
     (case dec_pixels channels width st bs of
        Inl e \<Rightarrow> Inl e
      | Inr (st', rest, row) \<Rightarrow>
          (case dec_rows channels width h st' rest of
             Inl e \<Rightarrow> Inl e
           | Inr (st'', rest', rows) \<Rightarrow> Inr (st'', rest', row # rows)))"

text \<open>
  \<open>rpk_decode\<close>: the rows handed to the PNG library and the input left unread.
  The body of a \<open>do\<close> loop runs at least once: for an image of no rows the decoder
  still decodes one row, which the library then refuses.
\<close>

definition rpk_decode ::
  "nat \<Rightarrow> nat \<Rightarrow> nat \<Rightarrow> byte list \<Rightarrow> (byte list list \<times> byte list) reader" where
  "rpk_decode channels width height bs =
     (if height = 0 then
        (case dec_pixels channels width dec_init bs of
           Inl e \<Rightarrow> Inl e
         | Inr (st, rest, row) \<Rightarrow> Inl (SinkFailure, rest))
      else
        (case dec_rows channels width height dec_init bs of
           Inl e \<Rightarrow> Inl e
         | Inr (st, rest, rows) \<Rightarrow> Inr (rows, rest)))"

section \<open>File framing (rpk.h, lines 347-500)\<close>

text \<open>The magic string \<open>"rpk"\<close>.\<close>

definition magic :: "byte list" where
  "magic = [0x72, 0x70, 0x6B]"

text \<open>\<open>htonl\<close> followed by \<open>fwrite(&temp, 1, 4, outf)\<close>: four bytes, most significant first.\<close>

definition be32 :: "32 word \<Rightarrow> byte list" where
  "be32 w = [ucast (drop_bit 24 w), ucast (drop_bit 16 w), ucast (drop_bit 8 w), ucast w]"

text \<open>\<open>fread\<close> of four bytes into a \<open>uint32_t\<close> followed by \<open>ntohl\<close>.\<close>

definition from_be32 :: "byte list \<Rightarrow> 32 word" where
  "from_be32 bs = push_bit 24 (ucast (bs ! 0)) OR push_bit 16 (ucast (bs ! 1))
                    OR push_bit 8 (ucast (bs ! 2)) OR ucast (bs ! 3)"

text \<open>
  \<open>rpk_write\<close> from the header on (lines 389-416).  \<open>width\<close>, \<open>height\<close> and
  \<open>color_type\<close> come from the PNG header; the rows come from the PNG library.  The
  result is the content of the output file.
\<close>

definition footer7 :: "byte list" where
  "footer7 = [0, 0, 0, 0, 0, 0, 1]"

definition rpk_write :: "32 word \<Rightarrow> 32 word \<Rightarrow> byte \<Rightarrow> color list list \<Rightarrow> error + byte list" where
  "rpk_write width height color_type rows =
     (let channels = 3 + (drop_bit 2 color_type AND 1) in
      case rpk_encode (unat channels) rows of
        Inl e \<Rightarrow> Inl e
      | Inr payload \<Rightarrow>
          Inr (magic @ be32 width @ be32 height @ [channels, 0] @ payload @ footer7))"

text \<open>
  \<open>rpk_read\<close> from the check of the magic string on (lines 455-488).  The PNG
  library is not part of this repository: \<open>spng_set_ihdr\<close> is a parameter that says
  whether the library accepts a header of the given width, height and colour type.
\<close>

definition rpk_read ::
  "(32 word \<Rightarrow> 32 word \<Rightarrow> byte \<Rightarrow> bool) \<Rightarrow> byte list \<Rightarrow> (byte list list \<times> byte list) reader" where
  "rpk_read spng_set_ihdr bs =
     (if length bs < 3 then Inl (BadMagic, [])
      else if take 3 bs \<noteq> magic then Inl (BadMagic, drop 3 bs)
      else
        (let bs1 = drop 3 bs in
         if length bs1 < 10 then Inl (Truncated, [])
         else
           (let width = from_be32 (take 4 bs1);
                height = from_be32 (take 4 (drop 4 bs1));
                channels = bs1 ! 8;
                bs2 = drop 10 bs1
            in if \<not> spng_set_ihdr width height (4 * channels - 10) then Inl (SinkFailure, bs2)
               else rpk_decode (unat channels) (unat width) (unat height) bs2)))"

section \<open>Definitions for the statements\<close>

text \<open>
  The length bytes of a run of type 0 as the specification's table gives them: lengths
  1 to 16 in one byte with bias 1, lengths 17 to 2064 in two bytes with bias 17, lengths
  2065 to 526352 in three bytes with bias 2065, most significant byte first.
\<close>

definition run0_spec :: "nat \<Rightarrow> byte list" where
  "run0_spec L =
     (if L \<le> 16 then [of_nat (0x80 + (L - 1))]
      else if L \<le> 2064 then [of_nat (0x90 + (L - 17) div 256), of_nat ((L - 17) mod 256)]
      else [of_nat (0x98 + (L - 2065) div 65536), of_nat ((L - 2065) div 256 mod 256),
            of_nat ((L - 2065) mod 256)])"

text \<open>
  The invariant of the cache: 128 slots, each holding the all-zero pixel or a pixel
  whose hash is the index of the slot.
\<close>

definition cache_ok :: "color list \<Rightarrow> bool" where
  "cache_ok cache \<longleftrightarrow>
     length cache = 128 \<and> (\<forall>i<128. cache ! i = zero_color \<or> HASH (cache ! i) = i)"

text \<open>
  What the decoder hands to the PNG library for an image: per row, the first
  \<open>channels\<close> bytes of every pixel.
\<close>

definition image_bytes :: "nat \<Rightarrow> color list list \<Rightarrow> byte list list" where
  "image_bytes channels rows = map (\<lambda>row. concat (map (\<lambda>c. take channels (color_bytes c)) row)) rows"

text \<open>
  Writing an image to a file and reading the file back, with a PNG library that
  accepts every header.
\<close>

definition roundtrip :: "32 word \<Rightarrow> 32 word \<Rightarrow> byte \<Rightarrow> color list list \<Rightarrow> byte list list reader" where
  "roundtrip width height color_type rows =
     (case rpk_write width height color_type rows of
        Inl e \<Rightarrow> Inl (e, [])
      | Inr file \<Rightarrow>
          (case rpk_read (\<lambda>w h c. True) file of
             Inl e \<Rightarrow> Inl e
           | Inr (rows', rest) \<Rightarrow> Inr rows'))"

text \<open>
  Example images.  \<open>stripes n a b\<close> is a row of \<open>n\<close> pixels that alternate between
  \<open>a\<close> and \<open>b\<close>; the two colours below differ by one in the red component.
\<close>

definition px_a :: color where "px_a = mk_color 1 0 0 255"
definition px_b :: color where "px_b = mk_color 0 0 0 255"

fun stripes :: "nat \<Rightarrow> color \<Rightarrow> color \<Rightarrow> color list" where
  "stripes 0 a b = []"
| "stripes (Suc n) a b = a # stripes n b a"

text \<open>An image of 11 by 3 pixels and one of 43 by 3 pixels, alternating in raster order.\<close>

definition stripes33 :: "color list list" where
  "stripes33 = [stripes 11 px_a px_b, stripes 11 px_b px_a, stripes 11 px_a px_b]"

definition stripes129 :: "color list list" where
  "stripes129 = [stripes 43 px_a px_b, stripes 43 px_b px_a, stripes 43 px_a px_b]"



definition black2 :: "color list list" where
  "black2 = [[mk_color 0 0 0 255], [mk_color 0 0 0 255]]"

text \<open>
  Definitions for the comparison of the encoder with the decoder.  \<open>pend\<close> is the
  bytes that a flush of the pending run writes: the opcode and, for the run types 1 to
  3, the arguments stored in \<open>buffer\<close>.
\<close>

definition run_args :: "nat \<Rightarrow> enc_state \<Rightarrow> byte list" where
  "run_args ch E = (if e_runtype E = 0 then []
                    else take (argbytes ch (e_runtype E) * e_run E) (e_buffer E))"

definition pend :: "nat \<Rightarrow> enc_state \<Rightarrow> byte list" where
  "pend ch E = (if e_run E = 0 then []
                else if e_runtype E \<noteq> 0
                  then PACKRUN (unat (e_runtype E)) (e_run E - 1) # run_args ch E
                else run0_spec (e_run E))"

text \<open>
  The caches of the decoder and of the encoder agree: they are equal slot for slot,
  except that slot 71, the hash of the initial pixel \<open>(0,0,0,255)\<close>, may hold that
  pixel on the decoder's side while it is still all-zero on the encoder's side.
\<close>

definition cache_agree :: "color list \<Rightarrow> color list \<Rightarrow> bool" where
  "cache_agree dc ec \<longleftrightarrow>
     length dc = 128 \<and> length ec = 128 \<and>
     (\<forall>i<128. dc ! i = ec ! i \<or> (i = 71 \<and> ec ! i = zero_color \<and> dc ! i = init_color))"

text \<open>
  \<open>args_ok ch t c ps A\<close>: the bytes \<open>A\<close> are the arguments of a run of type \<open>t\<close>
  that leads from the colour \<open>c\<close> through the pixels \<open>ps\<close>.
\<close>

fun args_ok :: "nat \<Rightarrow> byte \<Rightarrow> color \<Rightarrow> color list \<Rightarrow> byte list \<Rightarrow> bool" where
  "args_ok ch t c [] A = (A = [])"
| "args_ok ch t c (p # ps) A =
     (\<exists>a A'. A = a @ A' \<and> (\<forall>xs. next_color ch t c (a @ xs) = Inr (p, xs)) \<and> args_ok ch t p ps A')"

text \<open>The bytes of a list of pixels in the decoder's output.\<close>

definition pixel_bytes :: "nat \<Rightarrow> color list \<Rightarrow> byte list" where
  "pixel_bytes ch ps = concat (map (\<lambda>p. take ch (color_bytes p)) ps)"

text \<open>
  The relation between the encoder after \<open>k\<close> pixels, the last of which is \<open>c\<close>, and
  the decoder: the bytes written so far decode to the pixels before the pending run and
  leave the decoder in a state \<open>D0\<close> outside a run; the pending run leads from the
  decoder's \<open>current\<close> through the pixels \<open>ps\<close>; after these pixels the caches agree.
\<close>

definition sim :: "nat \<Rightarrow> color \<Rightarrow> enc_state \<Rightarrow> color list \<Rightarrow> bool" where
  "sim ch c E pxs \<longleftrightarrow>
     (\<exists>D0 ps.
        length ps = e_run E \<and> length ps \<le> length pxs \<and>
        (\<forall>xs. dec_pixels ch (length pxs - length ps) dec_init (e_out E @ xs)
                = Inr (D0, xs, pixel_bytes ch (take (length pxs - length ps) pxs))) \<and>
        ps = drop (length pxs - length ps) pxs \<and>
        d_run D0 = 0 \<and>
        args_ok ch (e_runtype E) (d_current D0) ps (run_args ch E) \<and>
        c = last (d_current D0 # ps) \<and>
        cache_agree (fold cache_put ps (d_cache D0)) (e_cache E) \<and>
        length (e_buffer E) = 128 \<and>
        (e_run E \<noteq> 0 \<longrightarrow> e_runtype E = 0 \<or> e_runtype E = 1 \<or> e_runtype E = 2 \<or> e_runtype E = 3) \<and>
        (e_runtype E \<noteq> 0 \<longrightarrow> e_run E \<le> 32) \<and>
        (e_runtype E = 0 \<longrightarrow> e_run E \<le> 526352) \<and>
        (e_cache E ! HASH c = c \<or> (c = init_color \<and> e_cache E ! 71 = zero_color)) \<and>
        (ch = 3 \<longrightarrow> alpha c = 255))"

text \<open>
  The hypothesis that leaves aside the unbounded run of type 1: after every pixel, a
  pending run of type 1 has at most 32 pixels.
\<close>

fun type1_bounded :: "nat \<Rightarrow> enc_state \<Rightarrow> color list \<Rightarrow> bool" where
  "type1_bounded ch st [] = True"
| "type1_bounded ch st (px # pxs) =
     (case enc_pixel ch st px of
        Inl e \<Rightarrow> False
      | Inr st' \<Rightarrow> (e_runtype st' = 1 \<longrightarrow> e_run st' \<le> 32) \<and> type1_bounded ch st' pxs)"

section \<open>Bit-level facts\<close>

lemma nat_and_255: "(x::nat) AND 0xFF = x mod 256"
proof -
  have "x AND mask 8 = x mod 2 ^ 8" by (simp only: take_bit_eq_mask [symmetric] take_bit_eq_mod)
  then show ?thesis by (simp add: mask_eq_exp_minus_1)
qed

lemma push_or_add: "r < 2 ^ n \<Longrightarrow> push_bit n q OR r = q * 2 ^ n + (r::nat)"
proof -
  assume r: "r < 2 ^ n"
  have "push_bit n q AND r = 0"
  proof (rule bit_eqI)
    fix k
    have "bit r k \<Longrightarrow> k < n" using r
      by (metis bit_take_bit_iff take_bit_nat_eq_self)
    then show "bit (push_bit n q AND r) k = bit (0::nat) k"
      by (auto simp: bit_and_iff bit_push_bit_iff)
  qed
  then have "push_bit n q + r = push_bit n q OR r" by (rule disjunctive_add_eq_or)
  then show ?thesis by (simp add: push_bit_eq_mult)
qed

lemma HASH_less: "HASH c < 128"
proof -
  have "x AND 127 < 128" for x :: nat
  proof -
    have "x AND mask 7 = x mod 2 ^ 7" by (simp only: take_bit_eq_mask [symmetric] take_bit_eq_mod)
    then show ?thesis by (simp add: mask_eq_exp_minus_1)
  qed
  then show ?thesis by (simp add: HASH_def)
qed

lemma opcode_bits:
  "list_all (\<lambda>m. opcode_type (of_nat (128 + m)) = 0
       \<and> unat ((of_nat (128 + m) :: byte) AND 0x1F) = m
       \<and> (of_nat (128 + m) :: byte) AND 0x80 = 0x80)
     [0, 1, 2, 3, 4, 5, 6, 7, 8, 9, 10, 11, 12, 13, 14, 15, 16, 17, 18, 19, 20, 21, 22, 23,
      24, 25, 26, 27, 28, 29, 30, 31]"
  by (simp add: opcode_type_def)

lemma opcode_run0:
  assumes "unat (c::byte) = 128 + m" "m < 32"
  shows "opcode_type c = 0" and "unat (c AND 0x1F) = m" and "c AND 0x80 = 0x80"
proof -
  have "unat c = unat (of_nat (128 + m) :: byte)"
    using assms by (simp add: unat_of_nat del: of_nat_add)
  then have c: "c = of_nat (128 + m)" by (simp only: word_unat_eq_iff)
  have "m \<in> set [0, 1, 2, 3, 4, 5, 6, 7, 8, 9, 10, 11, 12, 13, 14, 15, 16, 17, 18, 19, 20,
      21, 22, 23, 24, 25, 26, 27, 28, 29, 30, 31]" using assms(2) by simp arith
  with opcode_bits have "opcode_type (of_nat (128 + m)) = 0
       \<and> unat ((of_nat (128 + m) :: byte) AND 0x1F) = m
       \<and> (of_nat (128 + m) :: byte) AND 0x80 = 0x80"
    unfolding list_all_iff by blast
  then show "opcode_type c = 0" and "unat (c AND 0x1F) = m" and "c AND 0x80 = 0x80"
    using c by blast+
qed

lemma and15_bits:
  "list_all (\<lambda>q. (16 + q) AND 15 = (q::nat) \<and> (24 + q) AND 15 = 8 + q \<and> (8 + q) AND 7 = q)
     [0, 1, 2, 3, 4, 5, 6, 7]"
  by simp

lemma and15:
  assumes "q < 8"
  shows "(16 + q) AND 15 = (q::nat)" and "(24 + q) AND 15 = 8 + q" and "(8 + q) AND 7 = q"
proof -
  have "q \<in> set [0, 1, 2, 3, 4, 5, 6, 7]" using assms by simp arith
  with and15_bits show "(16 + q) AND 15 = (q::nat)" and "(24 + q) AND 15 = 8 + q"
    and "(8 + q) AND 7 = q" unfolding list_all_iff by blast+
qed

section \<open>The length bytes of a run of type 0\<close>

lemma read_run0:
  assumes "1 \<le> L" "L \<le> 526352"
  shows "read_run (hd (run0_spec L)) (tl (run0_spec L) @ rest) = Inr (L, rest)
       \<and> opcode_type (hd (run0_spec L)) = 0 \<and> hd (run0_spec L) AND 0x80 = 0x80"
proof -
  consider "L \<le> 16" | "16 < L" "L \<le> 2064" | "2064 < L" by linarith
  then show ?thesis
  proof cases
    case 1
    define c :: byte where "c = of_nat (0x80 + (L - 1))"
    have m: "L - 1 < 32" using 1 by simp
    have uc: "unat c = 128 + (L - 1)" using 1 by (simp add: c_def unat_of_nat del: of_nat_add)
    have sp: "run0_spec L = [c]" using 1 by (simp add: run0_spec_def c_def)
    have n16: "\<not> 16 \<le> L - Suc 0" using 1 by arith
    show ?thesis using 1 assms n16
      by (simp add: sp read_run_def Let_def opcode_run0 [OF uc m])
  next
    case 2
    define q where "q = (L - 17) div 256"
    define r where "r = (L - 17) mod 256"
    define c :: byte where "c = of_nat (0x90 + q)"
    have q: "q < 8" using 2 by (simp add: q_def less_mult_imp_div_less)
    have r: "r < 2 ^ 8" by (simp add: r_def)
    have L: "L = q * 256 + r + 17" using 2 by (simp add: q_def r_def)
    have u: "unat (of_nat r :: byte) = r" using r by (simp add: unat_of_nat)
    have m: "16 + q < 32" using q by simp
    have uc: "unat c = 128 + (16 + q)" using q by (simp add: c_def unat_of_nat del: of_nat_add)
    have sp: "run0_spec L = [c, of_nat r]"
      using 2 by (simp add: run0_spec_def q_def r_def c_def)
    have rr: "read_run c (of_nat r # rest) = Inr (q * 256 + r + 17, rest)" using q
      by (simp add: read_run_def Let_def opcode_run0 [OF uc m] and15 [OF q] u push_or_add [OF r])
    show ?thesis unfolding sp using rr L by (simp add: opcode_run0 [OF uc m])
  next
    case 3
    define x where "x = L - 2065"
    define q where "q = x div 65536"
    define r1 where "r1 = x div 256 mod 256"
    define r2 where "r2 = x mod 256"
    define c :: byte where "c = of_nat (0x98 + q)"
    have x: "x < 524288" using 3 assms by (simp add: x_def)
    have q: "q < 8" using x by (simp add: q_def less_mult_imp_div_less)
    have r1: "r1 < 2 ^ 8" by (simp add: r1_def)
    have r2: "r2 < 2 ^ 8" by (simp add: r2_def)
    have d1: "x = x div 256 * 256 + x mod 256" by simp
    have d2: "x div 256 = x div 256 div 256 * 256 + x div 256 mod 256" by simp
    have d3: "x div 65536 = x div 256 div 256" by (simp add: div_mult2_eq)
    have "x = (x div 256 div 256 * 256 + x div 256 mod 256) * 256 + x mod 256"
      by (subst d2 [symmetric]) (rule d1)
    then have X: "x = (q * 256 + r1) * 256 + r2"
      by (simp only: q_def r1_def r2_def d3)
    have L: "L = x + 2065" using 3 by (simp add: x_def)
    have u1: "unat (of_nat r1 :: byte) = r1" using r1 by (simp add: unat_of_nat)
    have u2: "unat (of_nat r2 :: byte) = r2" using r2 by (simp add: unat_of_nat)
    have m: "24 + q < 32" using q by simp
    have uc: "unat c = 128 + (24 + q)" using q by (simp add: c_def unat_of_nat del: of_nat_add)
    have sp: "run0_spec L = [c, of_nat r1, of_nat r2]"
      using 3 by (simp add: run0_spec_def q_def r1_def r2_def c_def x_def)
    have rr: "read_run c (of_nat r1 # of_nat r2 # rest)
                = Inr ((q * 256 + r1) * 256 + r2 + 2065, rest)" using q
      by (simp add: read_run_def Let_def opcode_run0 [OF uc m] and15 [OF q] u1 u2
            push_or_add [OF r1] push_or_add [OF r2])
    show ?thesis unfolding sp using rr L X by (simp add: opcode_run0 [OF uc m])
  qed
qed

section \<open>Invariants of the encoder and the decoder\<close>

lemma RPK_PRINT_fields:
  "e_run (RPK_PRINT ch b st) = 0"
  "e_cache (RPK_PRINT ch b st) = e_cache st"
  "e_current (RPK_PRINT ch b st) = e_current st"
  "e_buffer (RPK_PRINT ch b st) = e_buffer st"
  "e_runtype (RPK_PRINT ch b st) = (if e_run st \<noteq> 0 \<and> e_runtype st \<noteq> 0 then 255 else e_runtype st)"
  by (simp_all add: RPK_PRINT_def Let_def)

lemma flush_run0:
  assumes "e_runtype st = 0" "1 \<le> e_run st"
  shows "e_out (RPK_PRINT ch b st)
           = e_out st @ run0_spec (e_run st) @ (if b < 128 then [of_nat b] else [])"
  using assms
  by (simp add: RPK_PRINT_def run0_spec_def PACKRUN_def Let_def nat_and_255 drop_bit_eq_div) arith


lemma buf_store_Inr:
  "buf_store i v st = Inr st' \<longleftrightarrow> i < 128 \<and> st' = st\<lparr>e_buffer := (e_buffer st)[i := v]\<rparr>"
  by (auto simp: buf_store_def)

lemma smalldiff_Inr:
  "smalldiff d c st = Inr st' \<longleftrightarrow>
     e_run st < 128 \<and>
     st' = st\<lparr>e_buffer := (e_buffer st)[e_run st := type1_arg d],
              e_run := e_run st + 1, e_runtype := 1, e_cache := cache_put c (e_cache st)\<rparr>"
  by (auto simp: smalldiff_def bind_enc_def buf_store_def)

lemma type2step_Inr:
  "type2step ch d c st = Inr st' \<longleftrightarrow>
     e_run (flush_for ch 2 st) * 2 + 1 < 128 \<and>
     st' = (flush_for ch 2 st)\<lparr>e_buffer := (e_buffer st)
                 [e_run (flush_for ch 2 st) * 2 := type2_arg0 d,
                  e_run (flush_for ch 2 st) * 2 + 1 := type2_arg1 d],
              e_run := e_run (flush_for ch 2 st) + 1, e_runtype := 2,
              e_cache := cache_put c (e_cache st)\<rparr>"
  by (auto simp: type2step_def bind_enc_def buf_store_def flush_for_def Let_def RPK_PRINT_fields)

lemma type3step_fields:
  assumes "type3step ch c st = Inr st'"
  shows "e_cache st' = cache_put c (e_cache st)" "e_runtype st' = 3"
    "e_run st' = e_run (flush_for ch 3 st) + 1" "e_out st' = e_out (flush_for ch 3 st)"
    "e_current st' = e_current st" "length (e_buffer st') = length (e_buffer st)"
    "e_run (flush_for ch 3 st) * ch + 2 < 128"
  using assms
  by (auto simp: type3step_def bind_enc_def buf_store_def flush_for_def Let_def RPK_PRINT_fields
           split: if_splits)

lemma enc_pixel_cache:
  assumes "enc_pixel ch st px = Inr st'"
  shows "e_cache st' = e_cache st \<or> e_cache st' = cache_put px (e_cache st)"
  using assms
  by (auto simp: enc_pixel_def Let_def smalldiff_Inr type2step_Inr RPK_PRINT_fields flush_for_def
           dest: type3step_fields(1) split: if_splits)


lemma cache_ok_init: "cache_ok init_cache"
  by (simp add: cache_ok_def init_cache_def)

lemma cache_ok_put: "cache_ok cache \<Longrightarrow> cache_ok (cache_put p cache)"
  by (auto simp: cache_ok_def cache_put_def nth_list_update HASH_less)

lemma enc_pixels_cache_ok:
  "enc_pixels ch st pxs = Inr st' \<Longrightarrow> cache_ok (e_cache st) \<Longrightarrow> cache_ok (e_cache st')"
proof (induction pxs arbitrary: st)
  case Nil
  then show ?case by simp
next
  case (Cons px pxs)
  then obtain st1 where 1: "enc_pixel ch st px = Inr st1" and 2: "enc_pixels ch st1 pxs = Inr st'"
    by (auto split: sum.splits)
  from enc_pixel_cache [OF 1] Cons.prems(2) have "cache_ok (e_cache st1)"
    by (auto intro: cache_ok_put)
  with Cons.IH 2 show ?case by blast
qed


lemma dec_pixel_cache:
  assumes "dec_pixel ch st bs = Inr (st', rest, px)"
  shows "d_cache st' = d_cache st \<or> d_cache st' = cache_put (d_current st') (d_cache st)"
  using assms
  by (auto simp: dec_pixel_def run_step_def next_color_def Let_def split: if_splits list.splits sum.splits prod.splits)

lemma run_step_cache:
  assumes "run_step ch st bs = Inr (st', rest)"
  shows "d_cache st' = cache_put (d_current st') (d_cache st)"
  using assms by (auto simp: run_step_def next_color_def Let_def split: if_splits list.splits sum.splits)

lemma dec_pixel_cache_ok:
  assumes "dec_pixel ch st bs = Inr (st', rest, px)" "cache_ok (d_cache st)"
  shows "cache_ok (d_cache st')"
proof -
  have "d_cache st' = d_cache st \<or> d_cache st' = cache_put (d_current st') (d_cache st)"
    using assms(1)
    by (auto simp: dec_pixel_def dest!: run_step_cache split: if_splits list.splits sum.splits prod.splits)
  with assms(2) show ?thesis by (auto intro: cache_ok_put)
qed

lemma dec_pixels_cache_ok:
  "dec_pixels ch n st bs = Inr (st', rest, out) \<Longrightarrow> cache_ok (d_cache st) \<Longrightarrow> cache_ok (d_cache st')"
proof (induction n arbitrary: st bs out)
  case 0
  then show ?case by simp
next
  case (Suc n)
  then obtain st1 r1 p1 out1 where 1: "dec_pixel ch st bs = Inr (st1, r1, p1)"
    and 2: "dec_pixels ch n st1 r1 = Inr (st', rest, out1)"
    by (auto split: sum.splits prod.splits)
  from dec_pixel_cache_ok [OF 1 Suc.prems(2)] Suc.IH [OF 2] show ?case by blast
qed

section \<open>The loop over the rows\<close>

lemma row_loop_more:
  "row_loop ch lastrow buf st (r # r' # rs) =
     (case enc_pixels ch st r of
        Inl e \<Rightarrow> Inl e
      | Inr st' \<Rightarrow> row_loop ch True r st' (r' # rs))"
  by (subst row_loop.simps) (simp split: sum.splits)

lemma row_loop_none: "row_loop ch False buf st [] = Inr st"
  by (subst row_loop.simps) simp

lemma row_loop_single: "row_loop ch False buf st [r] = Inr st"
  by (subst row_loop.simps) simp

lemma row_loop_last:
  "row_loop ch True buf st [r] = enc_pixels ch st r"
  by (subst row_loop.simps) (simp add: row_loop_none split: sum.splits)

text \<open>The body of the loop never runs on the buffer as the loop found it.\<close>

lemma row_loop_buffer: "row_loop ch False buf st rows = row_loop ch False buf' st rows"
proof (cases rows)
  case Nil
  then show ?thesis by (simp add: row_loop_none)
next
  case (Cons r rs)
  then show ?thesis by (cases rs) (simp_all add: row_loop_single row_loop_more)
qed

lemma enc_pixels_append:
  "enc_pixels ch st (xs @ ys) =
     (case enc_pixels ch st xs of Inl e \<Rightarrow> Inl e | Inr st' \<Rightarrow> enc_pixels ch st' ys)"
  by (induction xs arbitrary: st) (simp_all split: sum.splits)

text \<open>
  Once a row has been delivered with the code \<open>0\<close>, the loop encodes every row that
  follows: the pixels of the image in raster order.
\<close>

lemma row_loop_rest:
  "rows \<noteq> [] \<Longrightarrow> row_loop ch True buf st rows = enc_pixels ch st (concat rows)"
proof (induction rows arbitrary: buf st)
  case Nil
  then show ?case by simp
next
  case (Cons r rs)
  show ?case
  proof (cases rs)
    case Nil
    then show ?thesis by (simp add: row_loop_last)
  next
    case (Cons r' rs')
    with Cons.IH show ?thesis
      by (simp add: row_loop_more enc_pixels_append split: sum.splits)
  qed
qed

text \<open>
  An image of two or more rows is encoded pixel by pixel in raster order; of an
  image of one row the loop encodes nothing, because the only row comes with
  \<open>SPNG_EOI\<close> while \<open>lastrow\<close> is still \<open>0\<close>.
\<close>

lemma enc_rows_raster:
  "2 \<le> length rows \<Longrightarrow> enc_rows ch st rows = enc_pixels ch st (concat rows)"
proof -
  assume "2 \<le> length rows"
  then obtain r r' rs where rows: "rows = r # r' # rs"
    by (cases rows; cases "tl rows") auto
  show ?thesis
    unfolding rows enc_rows_def
    by (simp add: row_loop_more row_loop_rest enc_pixels_append split: sum.splits)
qed

lemma enc_rows_one_row: "enc_rows ch st [r] = Inr st"
  by (simp add: enc_rows_def row_loop_single)

lemma rpk_encode_one_row: "rpk_encode ch [r] = Inr [0x00]"
  by (simp add: rpk_encode_def enc_rows_one_row RPK_PRINT_def enc_init_def Let_def)

section \<open>Evaluation on concrete inputs\<close>

lemma replicate_numeral': "replicate (numeral k) x = x # replicate (pred_numeral k) x"
  by (simp add: numeral_eq_Suc)

lemma stripes_numeral: "stripes (numeral k) a b = a # stripes (pred_numeral k) b a"
  by (simp add: numeral_eq_Suc)

lemma dec_pixels_numeral:
  "dec_pixels channels (numeral k) st bs =
     (case dec_pixel channels st bs of
        Inl e \<Rightarrow> Inl e
      | Inr (st', rest, px) \<Rightarrow>
          (case dec_pixels channels (pred_numeral k) st' rest of
             Inl e \<Rightarrow> Inl e
           | Inr (st'', rest', row) \<Rightarrow> Inr (st'', rest', px @ row)))"
  by (simp add: numeral_eq_Suc)

lemma dec_rows_numeral:
  "dec_rows channels width (numeral k) st bs =
     (case dec_pixels channels width st bs of
        Inl e \<Rightarrow> Inl e
      | Inr (st', rest, row) \<Rightarrow>
          (case dec_rows channels width (pred_numeral k) st' rest of
             Inl e \<Rightarrow> Inl e
           | Inr (st'', rest', rows) \<Rightarrow> Inr (st'', rest', row # rows)))"
  by (simp add: numeral_eq_Suc)

lemmas enc_eval = rpk_encode_def enc_rows_def row_loop_more row_loop_last row_loop_single row_loop_none
  enc_init_def init_cache_def init_color_def zero_color_def mk_color_def
  enc_pixel_def RPK_PRINT_def flush_for_def smalldiff_def type1_arg_def type2_arg0_def
  type2_arg1_def type2step_def type3step_def buf_store_def bind_enc_def
  cache_put_def HASH_def color_xor_def smallmask_def type2mask_def PACKRUN_def argbytes_def Let_def
  take_update_swap take_update_cancel stripes_numeral px_a_def px_b_def

lemmas dec_eval = rpk_decode_def dec_init_def init_cache_def init_color_def zero_color_def mk_color_def
  dec_pixel_def run_step_def next_color_def read_run_def opcode_type_def cache_put_def HASH_def color_bytes_def Let_def
  dec_pixels_numeral dec_rows_numeral

lemmas frame_eval = rpk_write_def rpk_read_def magic_def be32_def from_be32_def footer7_def

lemma RPK_PRINT_0_last: "\<exists>xs. e_out (RPK_PRINT ch 0 st) = xs @ [0]"
  by (simp add: RPK_PRINT_def Let_def)

section \<open>The decoder on a truncated input\<close>

lemma read_run_used:
  assumes "read_run c bs = Inr (run, rest)"
  shows "\<exists>used. bs = used @ rest \<and> (\<forall>xs. read_run c (used @ xs) = Inr (run, xs))
           \<and> (\<forall>n<length used. read_run c (take n used) = Inl (Truncated, []))"
proof (cases "opcode_type c = 0 \<and> 16 \<le> unat (c AND 0x1F)")
  case False
  with assms show ?thesis
    by (intro exI [of _ "[]"]) (auto simp: read_run_def Let_def)
next
  case long: True
  show ?thesis
  proof (cases "8 \<le> unat (c AND 0x1F) AND 15")
    case True
    with long assms obtain t1 t2 where bs: "bs = t1 # t2 # rest"
      by (auto simp: read_run_def Let_def split: list.splits)
    have frame: "read_run c ([t1, t2] @ xs) = Inr (run, xs)" for xs
      using True long assms bs by (simp add: read_run_def Let_def)
    have trunc: "read_run c (take n [t1, t2]) = Inl (Truncated, [])" if "n < length [t1, t2]" for n
    proof -
      from that consider "n = 0" | "n = Suc 0" by (simp add: less_Suc_eq) blast
      then show ?thesis using True long by cases (simp_all add: read_run_def Let_def)
    qed
    have "bs = [t1, t2] @ rest" using bs by simp
    with frame trunc show ?thesis by blast
  next
    case False
    with long assms obtain t where bs: "bs = t # rest"
      by (auto simp: read_run_def Let_def split: list.splits)
    with False long assms show ?thesis
      by (intro exI [of _ "[t]"]) (auto simp: read_run_def Let_def)
  qed
qed

lemma run_step_used:
  assumes "run_step ch st bs = Inr (st', rest)"
  shows "\<exists>used. bs = used @ rest \<and> (\<forall>xs. run_step ch st (used @ xs) = Inr (st', xs))
           \<and> (\<forall>n<length used. run_step ch st (take n used) = Inl (Truncated, []))"
proof -
  consider "d_runtype st = 1" | "d_runtype st = 2" | "d_runtype st = 3"
    | "d_runtype st \<noteq> 1" "d_runtype st \<noteq> 2" "d_runtype st \<noteq> 3" by blast
  then show ?thesis
  proof cases
    case 1
    with assms obtain t where bs: "bs = t # rest"
      by (auto simp: run_step_def next_color_def Let_def split: list.splits)
    with 1 assms show ?thesis
      by (intro exI [of _ "[t]"]) (auto simp: run_step_def next_color_def Let_def)
  next
    case 2
    with assms obtain t0 t1 where bs: "bs = t0 # t1 # rest"
      by (auto simp: run_step_def next_color_def Let_def split: list.splits)
    have frame: "run_step ch st ([t0, t1] @ xs) = Inr (st', xs)" for xs
      using 2 assms bs by (simp add: run_step_def next_color_def Let_def)
    have trunc: "run_step ch st (take n [t0, t1]) = Inl (Truncated, [])" if "n < length [t0, t1]" for n
    proof -
      from that consider "n = 0" | "n = Suc 0" by (simp add: less_Suc_eq) blast
      then show ?thesis using 2 by cases (simp_all add: run_step_def next_color_def Let_def)
    qed
    have "bs = [t0, t1] @ rest" using bs by simp
    with frame trunc show ?thesis by blast
  next
    case 3
    with assms have len: "ch \<le> length bs" and ch: "ch \<le> 4" and rest: "rest = drop ch bs"
      by (auto simp: run_step_def next_color_def Let_def split: if_splits)
    from 3 assms len ch rest show ?thesis
      by (intro exI [of _ "take ch bs"]) (auto simp: run_step_def next_color_def Let_def min_def)
  next
    case 4
    with assms show ?thesis
      by (intro exI [of _ "[]"]) (auto simp: run_step_def next_color_def Let_def)
  qed
qed

lemma dec_pixel_used:
  assumes "dec_pixel ch st bs = Inr (st', rest, px)"
  shows "\<exists>used. bs = used @ rest \<and> (\<forall>xs. dec_pixel ch st (used @ xs) = Inr (st', xs, px))
           \<and> (\<forall>n<length used. dec_pixel ch st (take n used) = Inl (Truncated, []))"
proof (cases "d_run st \<noteq> 0")
  case True
  with assms have ch: "\<not> 4 < ch" and px: "px = take ch (color_bytes (d_current st'))"
    and rs: "run_step ch st bs = Inr (st', rest)"
    by (auto simp: dec_pixel_def split: sum.splits if_splits)
  from run_step_used [OF rs] obtain used where "bs = used @ rest"
    "\<forall>xs. run_step ch st (used @ xs) = Inr (st', xs)"
    "\<forall>n<length used. run_step ch st (take n used) = Inl (Truncated, [])" by blast
  with True ch px show ?thesis
    by (intro exI [of _ used]) (auto simp: dec_pixel_def)
next
  case run0: False
  with assms obtain c bs1 where bs: "bs = c # bs1"
    by (cases bs) (auto simp: dec_pixel_def)
  show ?thesis
  proof (cases "c AND 0x80 = 0")
    case True
    with run0 assms bs show ?thesis
      by (intro exI [of _ "[c]"]) (auto simp: dec_pixel_def split: if_splits)
  next
    case False
    with run0 assms bs obtain run bs2 where rr: "read_run c bs1 = Inr (run, bs2)"
      and rs: "run_step ch (st\<lparr>d_runtype := opcode_type c, d_run := run\<rparr>) bs2 = Inr (st', rest)"
      and ch: "\<not> 4 < ch" and px: "px = take ch (color_bytes (d_current st'))"
      by (auto simp: dec_pixel_def split: sum.splits if_splits prod.splits)
    from read_run_used [OF rr] obtain u1 where u1: "bs1 = u1 @ bs2"
      "\<forall>xs. read_run c (u1 @ xs) = Inr (run, xs)"
      "\<forall>n<length u1. read_run c (take n u1) = Inl (Truncated, [])" by blast
    from run_step_used [OF rs] obtain u2 where u2: "bs2 = u2 @ rest"
      "\<forall>xs. run_step ch (st\<lparr>d_runtype := opcode_type c, d_run := run\<rparr>) (u2 @ xs) = Inr (st', xs)"
      "\<forall>n<length u2. run_step ch (st\<lparr>d_runtype := opcode_type c, d_run := run\<rparr>) (take n u2)
           = Inl (Truncated, [])" by blast
    have trunc: "dec_pixel ch st (take n (c # u1 @ u2)) = Inl (Truncated, [])"
      if n: "n < length (c # u1 @ u2)" for n
    proof (cases n)
      case 0
      with run0 show ?thesis by (simp add: dec_pixel_def)
    next
      case (Suc m)
      show ?thesis
      proof (cases "m < length u1")
        case True
        with u1(3) have "read_run c (take m u1) = Inl (Truncated, [])" by blast
        with True Suc run0 False show ?thesis by (simp add: dec_pixel_def)
      next
        case ge: False
        then have tk: "take m (u1 @ u2) = u1 @ take (m - length u1) u2" by simp
        from ge n Suc have "m - length u1 < length u2" by simp
        with u2(3) have "run_step ch (st\<lparr>d_runtype := opcode_type c, d_run := run\<rparr>)
             (take (m - length u1) u2) = Inl (Truncated, [])" by blast
        with Suc run0 False u1(2) tk show ?thesis by (simp add: dec_pixel_def)
      qed
    qed
    have frame: "dec_pixel ch st ((c # u1 @ u2) @ xs) = Inr (st', xs, px)" for xs
      using run0 False u1(2) u2(2) ch px by (simp add: dec_pixel_def)
    from bs u1(1) u2(1) have "bs = (c # u1 @ u2) @ rest" by simp
    with frame trunc show ?thesis by blast
  qed
qed

lemma dec_pixels_used:
  "dec_pixels ch m st bs = Inr (st', rest, out) \<Longrightarrow>
     \<exists>used. bs = used @ rest \<and> (\<forall>xs. dec_pixels ch m st (used @ xs) = Inr (st', xs, out))
           \<and> (\<forall>n<length used. dec_pixels ch m st (take n used) = Inl (Truncated, []))"
proof (induction m arbitrary: st bs out)
  case 0
  then show ?case by (intro exI [of _ "[]"]) auto
next
  case (Suc m)
  then obtain st1 r1 p1 out1 where 1: "dec_pixel ch st bs = Inr (st1, r1, p1)"
    and 2: "dec_pixels ch m st1 r1 = Inr (st', rest, out1)" and out: "out = p1 @ out1"
    by (auto split: sum.splits prod.splits)
  from dec_pixel_used [OF 1] obtain u1 where u1: "bs = u1 @ r1"
    "\<forall>xs. dec_pixel ch st (u1 @ xs) = Inr (st1, xs, p1)"
    "\<forall>n<length u1. dec_pixel ch st (take n u1) = Inl (Truncated, [])" by blast
  from Suc.IH [OF 2] obtain u2 where u2: "r1 = u2 @ rest"
    "\<forall>xs. dec_pixels ch m st1 (u2 @ xs) = Inr (st', xs, out1)"
    "\<forall>n<length u2. dec_pixels ch m st1 (take n u2) = Inl (Truncated, [])" by blast
  have trunc: "dec_pixels ch (Suc m) st (take n (u1 @ u2)) = Inl (Truncated, [])"
    if n: "n < length (u1 @ u2)" for n
  proof (cases "n < length u1")
    case True
    with u1(3) have "dec_pixel ch st (take n u1) = Inl (Truncated, [])" by blast
    with True show ?thesis by simp
  next
    case False
    then have tk: "take n (u1 @ u2) = u1 @ take (n - length u1) u2" by simp
    from False n have "n - length u1 < length u2" by simp
    with u2(3) have "dec_pixels ch m st1 (take (n - length u1) u2) = Inl (Truncated, [])" by blast
    with u1(2) tk show ?thesis by simp
  qed
  have frame: "dec_pixels ch (Suc m) st ((u1 @ u2) @ xs) = Inr (st', xs, out)" for xs
    using u1(2) u2(2) out by simp
  from u1(1) u2(1) have "bs = (u1 @ u2) @ rest" by simp
  with frame trunc show ?case by blast
qed

lemma dec_rows_used:
  "dec_rows ch w h st bs = Inr (st', rest, rows) \<Longrightarrow>
     \<exists>used. bs = used @ rest \<and> (\<forall>xs. dec_rows ch w h st (used @ xs) = Inr (st', xs, rows))
           \<and> (\<forall>n<length used. dec_rows ch w h st (take n used) = Inl (Truncated, []))"
proof (induction h arbitrary: st bs rows)
  case 0
  then show ?case by (intro exI [of _ "[]"]) auto
next
  case (Suc h)
  then obtain st1 r1 row rows1 where 1: "dec_pixels ch w st bs = Inr (st1, r1, row)"
    and 2: "dec_rows ch w h st1 r1 = Inr (st', rest, rows1)" and rows: "rows = row # rows1"
    by (auto split: sum.splits prod.splits)
  from dec_pixels_used [OF 1] obtain u1 where u1: "bs = u1 @ r1"
    "\<forall>xs. dec_pixels ch w st (u1 @ xs) = Inr (st1, xs, row)"
    "\<forall>n<length u1. dec_pixels ch w st (take n u1) = Inl (Truncated, [])" by blast
  from Suc.IH [OF 2] obtain u2 where u2: "r1 = u2 @ rest"
    "\<forall>xs. dec_rows ch w h st1 (u2 @ xs) = Inr (st', xs, rows1)"
    "\<forall>n<length u2. dec_rows ch w h st1 (take n u2) = Inl (Truncated, [])" by blast
  have trunc: "dec_rows ch w (Suc h) st (take n (u1 @ u2)) = Inl (Truncated, [])"
    if n: "n < length (u1 @ u2)" for n
  proof (cases "n < length u1")
    case True
    with u1(3) have "dec_pixels ch w st (take n u1) = Inl (Truncated, [])" by blast
    with True show ?thesis by simp
  next
    case False
    then have tk: "take n (u1 @ u2) = u1 @ take (n - length u1) u2" by simp
    from False n have "n - length u1 < length u2" by simp
    with u2(3) have "dec_rows ch w h st1 (take (n - length u1) u2) = Inl (Truncated, [])" by blast
    with u1(2) tk show ?thesis by simp
  qed
  have frame: "dec_rows ch w (Suc h) st ((u1 @ u2) @ xs) = Inr (st', xs, rows)" for xs
    using u1(2) u2(2) rows by simp
  from u1(1) u2(1) have "bs = (u1 @ u2) @ rest" by simp
  with frame trunc show ?case by blast
qed

lemma read_run_err:
  "read_run c bs = Inl (e, r) \<Longrightarrow> e = Truncated \<and> r = []"
  by (auto simp: read_run_def Let_def split: if_splits list.splits sum.splits)

lemma run_step_err:
  "run_step ch st bs = Inl (e, r) \<Longrightarrow> ch \<le> 4 \<Longrightarrow> e = Truncated \<and> r = []"
  by (auto simp: run_step_def next_color_def Let_def split: if_splits list.splits sum.splits)

lemma dec_pixel_err:
  "dec_pixel ch st bs = Inl (e, r) \<Longrightarrow> ch \<le> 4 \<Longrightarrow> e = Truncated \<and> r = []"
  by (auto simp: dec_pixel_def split: if_splits list.splits sum.splits prod.splits
           dest: read_run_err run_step_err)

lemma dec_pixels_err:
  "dec_pixels ch m st bs = Inl (e, r) \<Longrightarrow> ch \<le> 4 \<Longrightarrow> e = Truncated \<and> r = []"
proof (induction m arbitrary: st bs)
  case 0
  then show ?case by simp
next
  case (Suc m)
  then show ?case
    by (auto split: sum.splits prod.splits dest: dec_pixel_err)
qed

lemma dec_rows_err:
  "dec_rows ch w h st bs = Inl (e, r) \<Longrightarrow> ch \<le> 4 \<Longrightarrow> e = Truncated \<and> r = []"
proof (induction h arbitrary: st bs)
  case 0
  then show ?case by simp
next
  case (Suc h)
  then show ?case
    by (auto split: sum.splits prod.splits dest: dec_pixels_err)
qed

lemma rpk_decode_prefix:
  assumes "rpk_decode ch w h bs = Inr (rows, rest)" "n < length bs - length rest"
  shows "rpk_decode ch w h (take n bs) = Inl (Truncated, [])"
proof -
  from assms(1) have h: "h \<noteq> 0"
    by (cases "h = 0") (auto simp: rpk_decode_def split: sum.splits)
  with assms(1) obtain st where "dec_rows ch w h dec_init bs = Inr (st, rest, rows)"
    by (auto simp: rpk_decode_def split: sum.splits)
  from dec_rows_used [OF this] obtain used where u: "bs = used @ rest"
    "\<forall>n<length used. dec_rows ch w h dec_init (take n used) = Inl (Truncated, [])" by blast
  from assms(2) u(1) have n: "n < length used" by simp
  then have "take n bs = take n used" using u(1) by simp
  with u(2) n h show ?thesis by (simp add: rpk_decode_def)
qed

lemma rpk_read_prefix:
  assumes "rpk_read f fs = Inr (rows, rest)" "3 \<le> n" "n < length fs - length rest"
  shows "rpk_read f (take n fs) = Inl (Truncated, [])"
proof -
  from assms(1) have len: "13 \<le> length fs" and mg: "take 3 fs = magic"
    and ok: "f (from_be32 (take 4 (drop 3 fs))) (from_be32 (take 4 (drop 7 fs)))
               (4 * (drop 3 fs ! 8) - 10)"
    and dec: "rpk_decode (unat (drop 3 fs ! 8)) (unat (from_be32 (take 4 (drop 3 fs))))
               (unat (from_be32 (take 4 (drop 7 fs)))) (drop 13 fs) = Inr (rows, rest)"
    by (auto simp: rpk_read_def Let_def split: if_splits)
  show ?thesis
  proof (cases "n < 13")
    case True
    then have "n - 3 < 10" by arith
    with assms(2) len mg show ?thesis
      by (simp add: rpk_read_def Let_def min_def)
  next
    case False
    then have n13: "13 \<le> n" by simp
    from assms(3) n13 have "n - 13 < length fs - 13 - length rest" by arith
    then have "n - 13 < length (drop 13 fs) - length rest" by simp
    from rpk_decode_prefix [OF dec this]
    have d: "rpk_decode (unat (drop 3 fs ! 8)) (unat (from_be32 (take 4 (drop 3 fs))))
               (unat (from_be32 (take 4 (drop 7 fs)))) (take (n - 13) (drop 13 fs))
             = Inl (Truncated, [])" .
    have t1: "take 4 (drop 3 (take n fs)) = take 4 (drop 3 fs)"
      and t2: "take 4 (drop 7 (take n fs)) = take 4 (drop 7 fs)"
      and t3: "drop 3 (take n fs) ! 8 = drop 3 fs ! 8"
      and t4: "drop 13 (take n fs) = take (n - 13) (drop 13 fs)"
      and t5: "take 3 (take n fs) = take 3 fs"
      using n13 len by (simp_all add: drop_take min_def)
    from n13 len mg ok d show ?thesis
      by (simp add: rpk_read_def Let_def t1 t2 t3 t4 t5 min_def)
  qed
qed


section \<open>Bit-level facts about the argument bytes and the opcodes\<close>

lemma bit_byte_bound: "bit (x::byte) n \<Longrightarrow> n < 8"
  by (auto dest: bit_imp_le_length)

lemma byte_mask_bound:
  fixes x :: byte
  shows "x AND 0xFC = 0 \<Longrightarrow> bit x n \<Longrightarrow> n < 2"
    and "x AND 0xE0 = 0 \<Longrightarrow> bit x n \<Longrightarrow> n < 5"
    and "x AND 0xC0 = 0 \<Longrightarrow> bit x n \<Longrightarrow> n < 6"
proof -
  have cases8: "n < 2 \<or> n = 2 \<or> n = 3 \<or> n = 4 \<or> n = 5 \<or> n = 6 \<or> n = 7"
    if "bit x n" using bit_byte_bound [OF that] by arith
  show "n < 2" if a: "x AND 0xFC = 0" and b: "bit x n"
  proof (rule ccontr)
    assume "\<not> n < 2"
    with cases8 [OF b] have "bit (0xFC :: byte) n" by auto
    with b have "bit (x AND 0xFC) n" by (simp add: bit_and_iff)
    with a show False by simp
  qed
  show "n < 5" if a: "x AND 0xE0 = 0" and b: "bit x n"
  proof (rule ccontr)
    assume "\<not> n < 5"
    with cases8 [OF b] have "bit (0xE0 :: byte) n" by auto
    with b have "bit (x AND 0xE0) n" by (simp add: bit_and_iff)
    with a show False by simp
  qed
  show "n < 6" if a: "x AND 0xC0 = 0" and b: "bit x n"
  proof (rule ccontr)
    assume "\<not> n < 6"
    with cases8 [OF b] have "bit (0xC0 :: byte) n" by auto
    with b have "bit (x AND 0xC0) n" by (simp add: bit_and_iff)
    with a show False by simp
  qed
qed

lemma byte_masks: "(3::byte) = mask 2" "(7::byte) = mask 3" "(0x1F::byte) = mask 5"
  by (simp_all add: mask_eq_exp_minus_1)

lemma t1_fields:
  fixes r g b a :: byte
  assumes "r AND 0xFC = 0" "g AND 0xFC = 0" "b AND 0xFC = 0" "a AND 0xFC = 0"
  shows "drop_bit 6 (a OR push_bit 2 b OR push_bit 4 g OR push_bit 6 r) AND 3 = r"
    and "drop_bit 4 (a OR push_bit 2 b OR push_bit 4 g OR push_bit 6 r) AND 3 = g"
    and "drop_bit 2 (a OR push_bit 2 b OR push_bit 4 g OR push_bit 6 r) AND 3 = b"
    and "(a OR push_bit 2 b OR push_bit 4 g OR push_bit 6 r) AND 3 = a"
proof -
  note bd = byte_mask_bound(1) [OF assms(1)] byte_mask_bound(1) [OF assms(2)]
        byte_mask_bound(1) [OF assms(3)] byte_mask_bound(1) [OF assms(4)]
  show "drop_bit 6 (a OR push_bit 2 b OR push_bit 4 g OR push_bit 6 r) AND 3 = r"
    unfolding byte_masks
    by (rule bit_eqI) (auto simp: bit_simps dest: bit_byte_bound bd)
  show "drop_bit 4 (a OR push_bit 2 b OR push_bit 4 g OR push_bit 6 r) AND 3 = g"
    unfolding byte_masks
    by (rule bit_eqI) (auto simp: bit_simps dest: bit_byte_bound bd)
  show "drop_bit 2 (a OR push_bit 2 b OR push_bit 4 g OR push_bit 6 r) AND 3 = b"
    unfolding byte_masks
    by (rule bit_eqI) (auto simp: bit_simps dest: bit_byte_bound bd)
  show "(a OR push_bit 2 b OR push_bit 4 g OR push_bit 6 r) AND 3 = a"
    unfolding byte_masks
    by (rule bit_eqI) (auto simp: bit_simps dest: bit_byte_bound bd)
qed


lemma t2_red:
  fixes r g :: byte
  assumes "r AND 0xE0 = 0" "g AND 0xC0 = 0"
  shows "drop_bit 3 (push_bit 3 r OR drop_bit 3 g) AND 0x1F = r"
  unfolding byte_masks
  by (rule bit_eqI)
     (auto simp: bit_simps dest: bit_byte_bound byte_mask_bound(2) [OF assms(1)]
        byte_mask_bound(3) [OF assms(2)])

lemma t2_green:
  fixes r g b :: byte
  assumes "g AND 0xC0 = 0"
  shows "push_bit 3 ((push_bit 3 r OR drop_bit 3 g) AND 7) OR drop_bit 5 (push_bit 5 g OR (b AND 0x1F)) = g"
  unfolding byte_masks
  by (rule bit_eqI)
     (auto simp: bit_simps dest: bit_byte_bound byte_mask_bound(3) [OF assms(1)])
lemma t2_blue:
  fixes g b :: byte
  assumes "b AND 0xE0 = 0"
  shows "(push_bit 5 g OR (b AND 0x1F)) AND 0x1F = b"
  unfolding byte_masks
  by (rule bit_eqI)
     (auto simp: bit_simps dest: bit_byte_bound byte_mask_bound(2) [OF assms(1)])


lemma packrun_bits:
  "list_all (\<lambda>t. list_all (\<lambda>m. opcode_type (PACKRUN t m) = of_nat t
       \<and> unat (PACKRUN t m AND 0x1F) = m \<and> PACKRUN t m AND 0x80 = 0x80)
     [0, 1, 2, 3, 4, 5, 6, 7, 8, 9, 10, 11, 12, 13, 14, 15, 16, 17, 18, 19, 20, 21, 22, 23, 24, 25, 26, 27, 28, 29, 30, 31]) [1, 2, 3]"
  by (simp add: opcode_type_def PACKRUN_def)

lemma index_bits:
  "list_all (\<lambda>q. list_all (\<lambda>m. (of_nat (32 * q + m) :: byte) AND 0x80 = 0
       \<and> unat (of_nat (32 * q + m) :: byte) = 32 * q + m)
     [0, 1, 2, 3, 4, 5, 6, 7, 8, 9, 10, 11, 12, 13, 14, 15, 16, 17, 18, 19, 20, 21, 22, 23, 24, 25, 26, 27, 28, 29, 30, 31]) [0, 1, 2, 3]"
  by simp

lemma packrun_decode:
  assumes "t = 1 \<or> t = 2 \<or> t = 3" "m < 32"
  shows "opcode_type (PACKRUN t m) = of_nat t" and "unat (PACKRUN t m AND 0x1F) = m"
    and "PACKRUN t m AND 0x80 = 0x80"
proof -
  have t: "t \<in> set [1, 2, 3]" using assms(1) by auto
  have "m \<in> set [0, 1, 2, 3, 4, 5, 6, 7, 8, 9, 10, 11, 12, 13, 14, 15, 16, 17, 18, 19, 20, 21, 22, 23, 24, 25, 26, 27, 28, 29, 30, 31]"
    using assms(2) by simp arith
  with packrun_bits t have "opcode_type (PACKRUN t m) = of_nat t
       \<and> unat (PACKRUN t m AND 0x1F) = m \<and> PACKRUN t m AND 0x80 = 0x80"
    unfolding list_all_iff by blast
  then show "opcode_type (PACKRUN t m) = of_nat t" and "unat (PACKRUN t m AND 0x1F) = m"
    and "PACKRUN t m AND 0x80 = 0x80" by blast+
qed

lemma index_byte:
  assumes "h < 128"
  shows "(of_nat h :: byte) AND 0x80 = 0" and "unat (of_nat h :: byte) = h"
proof -
  have "h div 32 < 4" using assms by (simp add: less_mult_imp_div_less)
  then have q: "h div 32 \<in> set [0, 1, 2, 3]" by simp arith
  have "h mod 32 < 32" by simp
  then have m: "h mod 32 \<in> set [0, 1, 2, 3, 4, 5, 6, 7, 8, 9, 10, 11, 12, 13, 14, 15, 16, 17, 18, 19, 20, 21, 22, 23, 24, 25, 26, 27, 28, 29, 30, 31]"
    by simp arith
  from index_bits q m
  have "(of_nat (32 * (h div 32) + h mod 32) :: byte) AND 0x80 = 0
       \<and> unat (of_nat (32 * (h div 32) + h mod 32) :: byte) = 32 * (h div 32) + h mod 32"
    unfolding list_all_iff by blast
  moreover have "32 * (h div 32) + h mod 32 = h" by simp
  ultimately show "(of_nat h :: byte) AND 0x80 = 0" and "unat (of_nat h :: byte) = h"
    by simp_all
qed

section \<open>Decoding a run\<close>

lemma HASH_values: "HASH zero_color = 56" "HASH init_color = 71"
  by (simp_all add: HASH_def zero_color_def init_color_def mk_color_def)

lemma cache_agree_put:
  "cache_agree dc ec \<Longrightarrow> cache_agree (cache_put p dc) (cache_put p ec)"
  by (auto simp: cache_agree_def cache_put_def nth_list_update HASH_less)

lemma cache_agree_hit:
  assumes "cache_agree dc ec" "ec ! HASH p = p"
  shows "dc ! HASH p = p"
proof -
  from assms(1) HASH_less [of p]
  have "dc ! HASH p = ec ! HASH p \<or> (HASH p = 71 \<and> ec ! HASH p = zero_color)"
    by (auto simp: cache_agree_def)
  then show ?thesis
  proof
    assume "dc ! HASH p = ec ! HASH p"
    with assms(2) show ?thesis by simp
  next
    assume a: "HASH p = 71 \<and> ec ! HASH p = zero_color"
    with assms(2) have "p = zero_color" by auto
    with a have "HASH zero_color = 71" by simp
    then show ?thesis by (simp add: HASH_values)
  qed
qed

lemma cache_agree_repeat:
  assumes "cache_agree dc ec" "ec ! HASH c = c \<or> (c = init_color \<and> ec ! 71 = zero_color)"
  shows "cache_agree (cache_put c dc) ec"
  using assms(2)
proof
  assume "ec ! HASH c = c"
  from cache_agree_hit [OF assms(1) this] have "cache_put c dc = dc"
    by (metis cache_put_def list_update_id)
  with assms(1) show ?thesis by simp
next
  assume "c = init_color \<and> ec ! 71 = zero_color"
  with assms(1) show ?thesis
    by (auto simp: cache_agree_def cache_put_def nth_list_update HASH_values)
qed

lemma dec_pixels_add:
  "dec_pixels ch (m + n) st bs =
     (case dec_pixels ch m st bs of
        Inl e \<Rightarrow> Inl e
      | Inr (st', rest, o1) \<Rightarrow>
          (case dec_pixels ch n st' rest of
             Inl e \<Rightarrow> Inl e
           | Inr (st'', rest', o2) \<Rightarrow> Inr (st'', rest', o1 @ o2)))"
  by (induction m arbitrary: st bs) (auto split: sum.splits prod.splits)

lemma pixel_bytes_simps:
  "pixel_bytes ch [] = []"
  "pixel_bytes ch (p # ps) = take ch (color_bytes p) @ pixel_bytes ch ps"
  "pixel_bytes ch (ps @ qs) = pixel_bytes ch ps @ pixel_bytes ch qs"
  by (simp_all add: pixel_bytes_def)

lemma dec_run_cont:
  "args_ok ch t (d_current D) ps A \<Longrightarrow> d_runtype D = t \<Longrightarrow> d_run D = length ps \<Longrightarrow> ch \<le> 4 \<Longrightarrow>
     dec_pixels ch (length ps) D (A @ xs)
       = Inr (D\<lparr>d_run := 0, d_current := last (d_current D # ps),
                 d_cache := fold cache_put ps (d_cache D)\<rparr>, xs, pixel_bytes ch ps)"
proof (induction ps arbitrary: D A)
  case Nil
  then show ?case by (simp add: pixel_bytes_simps)
next
  case (Cons p ps)
  from Cons.prems(1) obtain a A' where A: "A = a @ A'"
    and nc: "\<forall>xs. next_color ch t (d_current D) (a @ xs) = Inr (p, xs)"
    and ok: "args_ok ch t p ps A'" by auto
  let ?D1 = "D\<lparr>d_run := length ps, d_current := p, d_cache := cache_put p (d_cache D)\<rparr>"
  from nc have "next_color ch t (d_current D) (a @ A' @ xs) = Inr (p, A' @ xs)" by blast
  with Cons.prems have step: "dec_pixel ch D (A @ xs) = Inr (?D1, A' @ xs, take ch (color_bytes p))"
    by (simp add: dec_pixel_def run_step_def A)
  have "dec_pixels ch (length ps) ?D1 (A' @ xs)
       = Inr (?D1\<lparr>d_run := 0, d_current := last (d_current ?D1 # ps),
                 d_cache := fold cache_put ps (d_cache ?D1)\<rparr>, xs, pixel_bytes ch ps)"
    using Cons.prems ok by (intro Cons.IH) simp_all
  with step show ?case by (simp add: pixel_bytes_simps)
qed

lemma dec_pixel_opcode:
  assumes "d_run D = 0" "c AND 0x80 = 0x80" "read_run c bs1 = Inr (n, bs2)" "n \<noteq> 0"
  shows "dec_pixel ch D (c # bs1) = dec_pixel ch (D\<lparr>d_runtype := opcode_type c, d_run := n\<rparr>) bs2"
  using assms by (simp add: dec_pixel_def run_step_def)

lemma read_run_packrun:
  assumes "t = 1 \<or> t = 2 \<or> t = 3" "m < 32"
  shows "read_run (PACKRUN t m) bs = Inr (Suc m, bs)"
proof -
  from assms(1) have "(of_nat t :: byte) \<noteq> 0" by auto
  with packrun_decode [OF assms] show ?thesis by (simp add: read_run_def Let_def)
qed

lemma argbytes_simps:
  "argbytes ch 1 = min 1 ch" "argbytes ch 2 = min 2 ch" "argbytes ch 3 = min 4 ch"
  by (simp_all add: argbytes_def)

lemma pend_decode:
  assumes "d_run D0 = 0" "length ps = e_run E" "e_run E \<noteq> 0"
    and "args_ok ch (e_runtype E) (d_current D0) ps (run_args ch E)"
    and "e_runtype E = 0 \<or> e_runtype E = 1 \<or> e_runtype E = 2 \<or> e_runtype E = 3"
    and "e_runtype E \<noteq> 0 \<longrightarrow> e_run E \<le> 32" "e_runtype E = 0 \<longrightarrow> e_run E \<le> 526352"
    and "ch \<le> 4"
  shows "dec_pixels ch (length ps) D0 (pend ch E @ xs)
           = Inr (D0\<lparr>d_runtype := e_runtype E, d_run := 0, d_current := last (d_current D0 # ps),
                     d_cache := fold cache_put ps (d_cache D0)\<rparr>, xs, pixel_bytes ch ps)"
proof -
  let ?t = "e_runtype E" and ?n = "e_run E"
  let ?D1 = "D0\<lparr>d_runtype := ?t, d_run := ?n\<rparr>"
  obtain m where n: "?n = Suc m" using assms(3) by (cases ?n) auto
  have cont: "dec_pixels ch (length ps) ?D1 (run_args ch E @ xs)
       = Inr (?D1\<lparr>d_run := 0, d_current := last (d_current ?D1 # ps),
                 d_cache := fold cache_put ps (d_cache ?D1)\<rparr>, xs, pixel_bytes ch ps)"
    using assms(2,4,8) by (intro dec_run_cont) simp_all
  have first: "dec_pixel ch D0 (pend ch E @ xs) = dec_pixel ch ?D1 (run_args ch E @ xs)"
  proof (cases "?t = 0")
    case True
    from assms(3) assms(7) True have L: "1 \<le> ?n" "?n \<le> 526352" by simp_all
    from read_run0 [OF L, of "xs"] have rr: "read_run (hd (run0_spec ?n)) (tl (run0_spec ?n) @ xs)
        = Inr (?n, xs)" and ot: "opcode_type (hd (run0_spec ?n)) = 0"
      and msb: "hd (run0_spec ?n) AND 0x80 = 0x80" by simp_all
    have ne: "run0_spec ?n \<noteq> []" by (simp add: run0_spec_def)
    then have sp: "run0_spec ?n @ xs = hd (run0_spec ?n) # (tl (run0_spec ?n) @ xs)" by simp
    have "dec_pixel ch D0 (run0_spec ?n @ xs)
        = dec_pixel ch (D0\<lparr>d_runtype := opcode_type (hd (run0_spec ?n)), d_run := ?n\<rparr>) xs"
      by (subst sp) (rule dec_pixel_opcode [OF assms(1) msb rr assms(3)])
    then show ?thesis using True assms(3) ot by (simp add: pend_def run_args_def)
  next
    case False
    with assms(5) have t: "unat ?t = 1 \<or> unat ?t = 2 \<or> unat ?t = 3" by auto
    from False assms(6) n have m: "m < 32" by simp
    have tt: "of_nat (unat ?t) = ?t" by simp
    have "dec_pixel ch D0 (PACKRUN (unat ?t) m # run_args ch E @ xs)
        = dec_pixel ch (D0\<lparr>d_runtype := opcode_type (PACKRUN (unat ?t) m), d_run := Suc m\<rparr>)
            (run_args ch E @ xs)"
      by (rule dec_pixel_opcode [OF assms(1) packrun_decode(3) [OF t m] read_run_packrun [OF t m]])
         simp
    then show ?thesis using packrun_decode(1) [OF t m] False n tt by (simp add: pend_def)
  qed
  from n have len: "length ps = Suc m" using assms(2) by simp
  show ?thesis using cont first unfolding len by simp
qed

section \<open>The decoder follows the encoder\<close>

lemma RPK_PRINT_out:
  "e_out (RPK_PRINT ch b E) = e_out E @ pend ch E @ (if b < 128 then [of_nat b] else [])"
proof (cases "e_run E \<noteq> 0 \<and> e_runtype E = 0")
  case True
  then show ?thesis using flush_run0 [of E ch b] by (simp add: pend_def)
next
  case False
  then show ?thesis by (auto simp: RPK_PRINT_def pend_def run_args_def Let_def)
qed

lemma args_ok_snoc:
  "args_ok ch t c0 ps A \<Longrightarrow> \<forall>xs. next_color ch t (last (c0 # ps)) (a @ xs) = Inr (px, xs)
     \<Longrightarrow> args_ok ch t c0 (ps @ [px]) (A @ a)"
proof (induction ps arbitrary: c0 A)
  case Nil
  then show ?case by simp
next
  case (Cons p ps)
  from Cons.prems(1) obtain b A' where A: "A = b @ A'"
    and nc: "\<forall>xs. next_color ch t c0 (b @ xs) = Inr (p, xs)" and ok: "args_ok ch t p ps A'"
    by auto
  from Cons.prems(2) have "\<forall>xs. next_color ch t (last (p # ps)) (a @ xs) = Inr (px, xs)" by simp
  from Cons.IH [OF ok this] have "args_ok ch t p (ps @ [px]) (A' @ a)" .
  with nc A show ?case by auto
qed

lemma sim_flushed:
  assumes "sim ch c E pxs" "ch = 3 \<or> ch = 4"
  shows "\<exists>D. (\<forall>xs. dec_pixels ch (length pxs) dec_init (e_out E @ pend ch E @ xs)
                  = Inr (D, xs, pixel_bytes ch pxs))
            \<and> d_run D = 0 \<and> d_current D = c \<and> cache_agree (d_cache D) (e_cache E)"
proof -
  from assms(1) obtain D0 ps where
    len: "length ps = e_run E" "length ps \<le> length pxs"
    and dec: "\<forall>xs. dec_pixels ch (length pxs - length ps) dec_init (e_out E @ xs)
                = Inr (D0, xs, pixel_bytes ch (take (length pxs - length ps) pxs))"
    and ps: "ps = drop (length pxs - length ps) pxs"
    and run0: "d_run D0 = 0"
    and ok: "args_ok ch (e_runtype E) (d_current D0) ps (run_args ch E)"
    and c: "c = last (d_current D0 # ps)"
    and ca: "cache_agree (fold cache_put ps (d_cache D0)) (e_cache E)"
    and rt: "e_run E \<noteq> 0 \<longrightarrow> e_runtype E = 0 \<or> e_runtype E = 1 \<or> e_runtype E = 2 \<or> e_runtype E = 3"
    and b1: "e_runtype E \<noteq> 0 \<longrightarrow> e_run E \<le> 32" and b0: "e_runtype E = 0 \<longrightarrow> e_run E \<le> 526352"
    unfolding sim_def by blast
  from assms(2) have ch4: "ch \<le> 4" by auto
  show ?thesis
  proof (cases "e_run E = 0")
    case True
    with len have "ps = []" by simp
    with True dec run0 c ca show ?thesis
      by (intro exI [of _ D0]) (simp add: pend_def)
  next
    case False
    let ?D = "D0\<lparr>d_runtype := e_runtype E, d_run := 0, d_current := last (d_current D0 # ps),
                     d_cache := fold cache_put ps (d_cache D0)\<rparr>"
    let ?m = "length pxs - length ps"
    have pd: "dec_pixels ch (length ps) D0 (pend ch E @ xs) = Inr (?D, xs, pixel_bytes ch ps)" for xs
      using run0 len(1) False ok rt b1 b0 ch4 by (intro pend_decode) simp_all
    have split: "length pxs = ?m + length ps" using len(2) by simp
    have pb: "pixel_bytes ch (take ?m pxs) @ pixel_bytes ch ps = pixel_bytes ch pxs"
      by (subst ps) (simp add: pixel_bytes_simps(3) [symmetric])
    have "dec_pixels ch (length pxs) dec_init (e_out E @ pend ch E @ xs)
            = Inr (?D, xs, pixel_bytes ch pxs)" for xs
      by (subst split, subst dec_pixels_add) (simp add: dec pd pb)
    with c ca show ?thesis by (intro exI [of _ ?D]) simp
  qed
qed

lemma sim_flush:
  assumes "sim ch c E pxs" "ch = 3 \<or> ch = 4"
    and "e_out E1 = e_out E @ pend ch E" "e_run E1 = 0" "e_cache E1 = e_cache E"
    and "e_buffer E1 = e_buffer E"
  shows "sim ch c E1 pxs"
proof -
  from sim_flushed [OF assms(1,2)] obtain D where
    D: "\<forall>xs. dec_pixels ch (length pxs) dec_init (e_out E @ pend ch E @ xs)
                  = Inr (D, xs, pixel_bytes ch pxs)"
       "d_run D = 0" "d_current D = c" "cache_agree (d_cache D) (e_cache E)" by blast
  from assms(1) have inv: "length (e_buffer E) = 128"
    "e_cache E ! HASH c = c \<or> (c = init_color \<and> e_cache E ! 71 = zero_color)"
    "ch = 3 \<longrightarrow> alpha c = 255"
    unfolding sim_def by blast+
  show ?thesis unfolding sim_def
    using D inv assms(3-6)
    by (intro exI [of _ D] exI [of _ "[]"]) (simp add: run_args_def)
qed

lemma sim_index:
  assumes "sim ch c E pxs" "ch = 3 \<or> ch = 4" "e_cache E ! HASH px = px" "ch = 3 \<longrightarrow> alpha px = 255"
    and "e_out E1 = e_out E @ pend ch E @ [of_nat (HASH px)]" "e_run E1 = 0"
    and "e_cache E1 = e_cache E" "e_buffer E1 = e_buffer E"
  shows "sim ch px E1 (pxs @ [px])"
proof -
  from sim_flushed [OF assms(1,2)] obtain D where
    D: "\<forall>xs. dec_pixels ch (length pxs) dec_init (e_out E @ pend ch E @ xs)
                  = Inr (D, xs, pixel_bytes ch pxs)"
       "d_run D = 0" "d_current D = c" "cache_agree (d_cache D) (e_cache E)" by blast
  from assms(1) have inv: "length (e_buffer E) = 128" unfolding sim_def by blast
  from assms(2) have ch4: "\<not> 4 < ch" by auto
  let ?D1 = "D\<lparr>d_current := px\<rparr>"
  have hit: "d_cache D ! HASH px = px" using cache_agree_hit [OF D(4) assms(3)] .
  have step: "dec_pixel ch D (of_nat (HASH px) # xs) = Inr (?D1, xs, take ch (color_bytes px))" for xs
    using D(2) hit ch4 index_byte [OF HASH_less [of px]] by (simp add: dec_pixel_def)
  have "dec_pixels ch (length (pxs @ [px])) dec_init (e_out E1 @ xs)
          = Inr (?D1, xs, pixel_bytes ch (pxs @ [px]))" for xs
  proof -
    have "dec_pixels ch (length pxs + 1) dec_init (e_out E @ pend ch E @ of_nat (HASH px) # xs)
          = Inr (?D1, xs, pixel_bytes ch pxs @ take ch (color_bytes px))"
      by (subst dec_pixels_add) (simp add: D(1) step)
    then show ?thesis by (simp add: assms(5) pixel_bytes_simps)
  qed
  then show ?thesis unfolding sim_def
    using D inv assms(3,4,6-8)
    by (intro exI [of _ ?D1] exI [of _ "[]"]) (simp add: run_args_def)
qed

lemma sim_append:
  assumes "sim ch c E pxs" "ch = 3 \<or> ch = 4"
    and "e_out E2 = e_out E" "e_run E2 = Suc (e_run E)" "e_runtype E2 = t"
    and "t = 0 \<or> t = 1 \<or> t = 2 \<or> t = 3" "e_run E \<noteq> 0 \<longrightarrow> e_runtype E = t"
    and "run_args ch E2 = (if e_run E = 0 then [] else run_args ch E) @ a"
    and "\<forall>xs. next_color ch t c (a @ xs) = Inr (px, xs)"
    and "e_cache E2 = (if t = 0 then e_cache E else cache_put px (e_cache E))"
    and "t = 0 \<longrightarrow> px = c" "length (e_buffer E2) = 128"
    and "t \<noteq> 0 \<longrightarrow> Suc (e_run E) \<le> 32" "t = 0 \<longrightarrow> Suc (e_run E) \<le> 526352"
    and "ch = 3 \<longrightarrow> alpha px = 255"
  shows "sim ch px E2 (pxs @ [px])"
proof -
  from assms(1) obtain D0 ps where
    len: "length ps = e_run E" "length ps \<le> length pxs"
    and dec: "\<forall>xs. dec_pixels ch (length pxs - length ps) dec_init (e_out E @ xs)
                = Inr (D0, xs, pixel_bytes ch (take (length pxs - length ps) pxs))"
    and ps: "ps = drop (length pxs - length ps) pxs"
    and run0: "d_run D0 = 0"
    and ok: "args_ok ch (e_runtype E) (d_current D0) ps (run_args ch E)"
    and c: "c = last (d_current D0 # ps)"
    and ca: "cache_agree (fold cache_put ps (d_cache D0)) (e_cache E)"
    and cur: "e_cache E ! HASH c = c \<or> (c = init_color \<and> e_cache E ! 71 = zero_color)"
    unfolding sim_def by blast
  let ?m = "length pxs - length ps"
  have ok0: "args_ok ch t (d_current D0) ps (if e_run E = 0 then [] else run_args ch E)"
  proof (cases "e_run E = 0")
    case True
    with len show ?thesis by simp
  next
    case False
    with assms(7) ok show ?thesis by simp
  qed
  from args_ok_snoc [OF ok0] assms(9) c
  have ok2: "args_ok ch t (d_current D0) (ps @ [px]) (run_args ch E2)"
    unfolding assms(8) by blast
  from ca have lens: "length (e_cache E) = 128" by (simp add: cache_agree_def)
  have ca2: "cache_agree (fold cache_put (ps @ [px]) (d_cache D0)) (e_cache E2)"
  proof (cases "t = 0")
    case True
    with assms(11) have "px = c" by simp
    with cache_agree_repeat [OF ca cur] True assms(10) show ?thesis by simp
  next
    case False
    with cache_agree_put [OF ca, of px] assms(10) show ?thesis by simp
  qed
  have cur2: "e_cache E2 ! HASH px = px \<or> (px = init_color \<and> e_cache E2 ! 71 = zero_color)"
  proof (cases "t = 0")
    case True
    with assms(10,11) cur show ?thesis by simp
  next
    case False
    with assms(10) lens HASH_less [of px] show ?thesis by (simp add: cache_put_def)
  qed
  have m: "length (pxs @ [px]) - length (ps @ [px]) = ?m" by simp
  have tk: "take ?m (pxs @ [px]) = take ?m pxs" by simp
  have dr: "drop ?m (pxs @ [px]) = ps @ [px]" using len(2) ps by simp
  show ?thesis unfolding sim_def
    apply (intro exI [of _ D0] exI [of _ "ps @ [px]"])
    unfolding m tk dr
    using len dec run0 ok2 ca2 cur2 assms(3-6,12-15)
    by auto
qed

lemma take_store1:
  "r < length buf \<Longrightarrow> take (Suc r) (buf[r := v]) = take r buf @ [v]"
  by (simp add: take_Suc_conv_app_nth)

lemma take_store2:
  "Suc r < length buf \<Longrightarrow> take (Suc (Suc r)) (buf[r := v, Suc r := w]) = take r buf @ [v, w]"
  by (simp add: take_Suc_conv_app_nth)

lemma take_store3:
  "Suc (Suc r) < length buf \<Longrightarrow>
     take (Suc (Suc (Suc r))) (buf[r := u, Suc r := v, Suc (Suc r) := w]) = take r buf @ [u, v, w]"
  by (simp add: take_Suc_conv_app_nth)

lemma take_store4:
  "Suc (Suc (Suc r)) < length buf \<Longrightarrow>
     take (Suc (Suc (Suc (Suc r)))) (buf[r := u, Suc r := v, Suc (Suc r) := w, Suc (Suc (Suc r)) := x])
       = take r buf @ [u, v, w, x]"
  by (simp add: take_Suc_conv_app_nth)

lemma byte_xor_back: "(c::byte) XOR (p XOR c) = p"
  by (simp add: xor.commute xor.left_commute)

lemma next_color_0: "next_color ch 0 c ([] @ xs) = Inr (c, xs)"
  by (simp add: next_color_def)

lemma byte_and_255: "(x::byte) AND 0xFF = x"
proof -
  have "(0xFF::byte) = - 1" by simp
  then show ?thesis by (simp only: and.right_neutral bit.conj_one_right)
qed

lemma color_eqI:
  "red a = red b \<Longrightarrow> green a = green b \<Longrightarrow> blue a = blue b \<Longrightarrow> alpha a = alpha b \<Longrightarrow> a = (b::color)"
  by simp

lemma type1_arg_fields:
  assumes "smallmask d"
  shows "drop_bit 6 (type1_arg d) AND 3 = red d" "drop_bit 4 (type1_arg d) AND 3 = green d"
    "drop_bit 2 (type1_arg d) AND 3 = blue d" "type1_arg d AND 3 = alpha d"
proof -
  from assms have m: "red d AND 0xFC = 0" "green d AND 0xFC = 0" "blue d AND 0xFC = 0"
    "alpha d AND 0xFC = 0" by (simp_all add: smallmask_def)
  show "drop_bit 6 (type1_arg d) AND 3 = red d" "drop_bit 4 (type1_arg d) AND 3 = green d"
    "drop_bit 2 (type1_arg d) AND 3 = blue d" "type1_arg d AND 3 = alpha d"
    unfolding type1_arg_def by (rule t1_fields [OF m])+
qed

lemma type2_arg_fields:
  assumes "type2mask d"
  shows "drop_bit 3 (type2_arg0 d) AND 0x1F = red d"
    "push_bit 3 (type2_arg0 d AND 7) OR drop_bit 5 (type2_arg1 d) = green d"
    "type2_arg1 d AND 0x1F = blue d" "alpha d = 0"
    "push_bit 3 (type2_arg0 d) AND 56 OR drop_bit 5 (type2_arg1 d) = green d"
proof -
  from assms have m: "red d AND 0xE0 = 0" "green d AND 0xC0 = 0" "blue d AND 0xE0 = 0"
    "alpha d AND 0xFF = 0" by (simp_all add: type2mask_def)
  show "drop_bit 3 (type2_arg0 d) AND 0x1F = red d"
    unfolding type2_arg0_def by (rule t2_red [OF m(1,2)])
  show g: "push_bit 3 (type2_arg0 d AND 7) OR drop_bit 5 (type2_arg1 d) = green d"
    unfolding type2_arg0_def type2_arg1_def by (rule t2_green [OF m(2)])
  then show "push_bit 3 (type2_arg0 d) AND 56 OR drop_bit 5 (type2_arg1 d) = green d"
    by simp
  show "type2_arg1 d AND 0x1F = blue d"
    unfolding type2_arg1_def by (rule t2_blue [OF m(3)])
  from m(4) show "alpha d = 0" by (simp only: byte_and_255)
qed

lemma color_xor_fields:
  "red (color_xor p c) = red p XOR red c" "green (color_xor p c) = green p XOR green c"
  "blue (color_xor p c) = blue p XOR blue c" "alpha (color_xor p c) = alpha p XOR alpha c"
  by (simp_all add: color_xor_def mk_color_def)

lemma next_color_1:
  assumes "smallmask (color_xor px c)" "ch = 4 \<or> (ch = 3 \<and> alpha px = alpha c)"
  shows "next_color ch 1 c ([type1_arg (color_xor px c)] @ xs) = Inr (px, xs)"
proof -
  define d where "d = color_xor px c"
  note f = type1_arg_fields [OF assms(1) [folded d_def]]
  have nc: "next_color ch 1 c ([type1_arg d] @ xs)
        = Inr (c\<lparr>red := red c XOR red d, green := green c XOR green d,
                  blue := blue c XOR blue d,
                  alpha := (if ch > 3 then alpha c XOR alpha d else alpha c)\<rparr>, xs)"
    by (simp add: next_color_def f)
  have "c\<lparr>red := red c XOR red d, green := green c XOR green d, blue := blue c XOR blue d,
           alpha := (if ch > 3 then alpha c XOR alpha d else alpha c)\<rparr> = px"
    using assms(2) unfolding d_def
    by (intro color_eqI) (auto simp: color_xor_fields byte_xor_back)
  with nc show ?thesis unfolding d_def by simp
qed

lemma next_color_2:
  assumes "type2mask (color_xor px c)"
  shows "next_color ch 2 c ([type2_arg0 (color_xor px c), type2_arg1 (color_xor px c)] @ xs)
         = Inr (px, xs)"
proof -
  define d where "d = color_xor px c"
  note f = type2_arg_fields [OF assms(1) [folded d_def]]
  have nc: "next_color ch 2 c ([type2_arg0 d, type2_arg1 d] @ xs)
        = Inr (c\<lparr>red := red c XOR red d, green := green c XOR green d,
                  blue := blue c XOR blue d\<rparr>, xs)"
    by (simp add: next_color_def f)
  from f(4) have a: "alpha px = alpha c"
    unfolding d_def color_xor_fields by (metis byte_xor_back xor.right_neutral)
  have "c\<lparr>red := red c XOR red d, green := green c XOR green d, blue := blue c XOR blue d\<rparr> = px"
    using a unfolding d_def by (intro color_eqI) (auto simp: color_xor_fields byte_xor_back)
  with nc show ?thesis unfolding d_def by simp
qed

lemma next_color_3:
  assumes "ch = 4 \<or> (ch = 3 \<and> alpha px = alpha c)"
  shows "next_color ch 3 c (take ch (color_bytes px) @ xs) = Inr (px, xs)"
  using assms by (auto simp: next_color_def color_bytes_def numeral_3_eq_3)

lemma sim_current: "sim ch c (E\<lparr>e_current := x\<rparr>) pxs = sim ch c E pxs"
  by (simp add: sim_def run_args_def)

lemma sim_facts:
  assumes "sim ch c E pxs"
  shows "length (e_buffer E) = 128" "e_runtype E \<noteq> 0 \<longrightarrow> e_run E \<le> 32"
    "ch = 3 \<longrightarrow> alpha c = 255" "e_runtype E = 0 \<longrightarrow> e_run E \<le> 526352"
  using assms unfolding sim_def by blast+

lemma flush_for_fields:
  "e_buffer (flush_for ch t E) = e_buffer E" "e_cache (flush_for ch t E) = e_cache E"
  "e_current (flush_for ch t E) = e_current E"
  by (simp_all add: flush_for_def RPK_PRINT_fields)

lemma sim_flush_for:
  assumes "sim ch c E pxs" "ch = 3 \<or> ch = 4" "t \<noteq> 0"
  shows "sim ch c (flush_for ch t E) pxs"
    and "e_run (flush_for ch t E) \<noteq> 0 \<longrightarrow>
           e_runtype (flush_for ch t E) = t \<and> e_run (flush_for ch t E) < 32"
proof -
  let ?F = "flush_for ch t E"
  show "sim ch c ?F pxs"
  proof (cases "(e_run E \<noteq> 0 \<and> e_runtype E \<noteq> t) \<or> e_run E = 32")
    case True
    then have F: "?F = (RPK_PRINT ch 128 E)\<lparr>e_run := 0\<rparr>" by (auto simp: flush_for_def)
    show ?thesis unfolding F
      by (rule sim_flush [OF assms(1,2)]) (simp_all add: RPK_PRINT_out RPK_PRINT_fields)
  next
    case False
    then have "?F = E" by (auto simp: flush_for_def)
    with assms(1) show ?thesis by simp
  qed
  show "e_run ?F \<noteq> 0 \<longrightarrow> e_runtype ?F = t \<and> e_run ?F < 32"
  proof (cases "(e_run E \<noteq> 0 \<and> e_runtype E \<noteq> t) \<or> e_run E = 32")
    case True
    then show ?thesis by (auto simp: flush_for_def)
  next
    case False
    then have F: "?F = E" by (auto simp: flush_for_def)
    from False assms(3) sim_facts(2) [OF assms(1)] show ?thesis unfolding F by auto
  qed
qed

lemma buf1:
  "r < length buf \<Longrightarrow> take (min 1 ch * Suc r) (buf[r := v]) = take (min 1 ch * r) buf @ [v]"
  if "ch = 3 \<or> ch = 4"
  using that take_store1 [of r buf v] by auto

lemma buf2:
  "r * 2 + 1 < length buf \<Longrightarrow>
     take (min 2 ch * Suc r) (buf[r * 2 := v, r * 2 + 1 := w]) = take (min 2 ch * r) buf @ [v, w]"
  if "ch = 3 \<or> ch = 4"
proof -
  assume a: "r * 2 + 1 < length buf"
  have e: "min 2 ch * Suc r = Suc (Suc (r * 2))" "r * 2 + 1 = Suc (r * 2)" "min 2 ch * r = r * 2"
    using that by auto
  show ?thesis unfolding e by (rule take_store2) (use a in simp)
qed

lemma buf3:
  "r * 3 + 2 < length buf \<Longrightarrow>
     take (3 * Suc r) (buf[r * 3 := u, r * 3 + 1 := v, r * 3 + 2 := w]) = take (3 * r) buf @ [u, v, w]"
proof -
  assume a: "r * 3 + 2 < length buf"
  have e: "3 * Suc r = Suc (Suc (Suc (r * 3)))" "r * 3 + 1 = Suc (r * 3)"
    "r * 3 + 2 = Suc (Suc (r * 3))" "3 * r = r * 3" by simp_all
  show ?thesis unfolding e by (rule take_store3) (use a in simp)
qed

lemma buf4:
  "r * 4 + 3 < length buf \<Longrightarrow>
     take (4 * Suc r) (buf[r * 4 := u, r * 4 + 1 := v, r * 4 + 2 := w, r * 4 + 3 := x])
       = take (4 * r) buf @ [u, v, w, x]"
proof -
  assume a: "r * 4 + 3 < length buf"
  have e: "4 * Suc r = Suc (Suc (Suc (Suc (r * 4))))" "r * 4 + 1 = Suc (r * 4)"
    "r * 4 + 2 = Suc (Suc (r * 4))" "r * 4 + 3 = Suc (Suc (Suc (r * 4)))" "4 * r = r * 4"
    by simp_all
  show ?thesis unfolding e by (rule take_store4) (use a in simp)
qed

lemma sim_smalldiff:
  assumes "sim ch c F pxs" "ch = 3 \<or> ch = 4" "smalldiff d px F = Inr E'" "d = color_xor px c"
    and "smallmask d" "e_run F \<noteq> 0 \<longrightarrow> e_runtype F = 1" "e_run E' \<le> 32"
    and "ch = 3 \<longrightarrow> alpha px = 255"
  shows "sim ch px E' (pxs @ [px])"
proof -
  from assms(3) have r: "e_run F < 128"
    and E': "E' = F\<lparr>e_buffer := (e_buffer F)[e_run F := type1_arg d], e_run := e_run F + 1,
                     e_runtype := 1, e_cache := cache_put px (e_cache F)\<rparr>"
    by (simp_all add: smalldiff_Inr)
  note fa = sim_facts [OF assms(1)]
  from assms(2,8) fa(3) have al: "ch = 4 \<or> (ch = 3 \<and> alpha px = alpha c)" by auto
  have nc: "\<forall>xs. next_color ch 1 c ([type1_arg d] @ xs) = Inr (px, xs)"
    using next_color_1 [OF assms(5) [unfolded assms(4)] al] unfolding assms(4) by blast
  have ra: "run_args ch E' = (if e_run F = 0 then [] else run_args ch F) @ [type1_arg d]"
    using assms(6) r fa(1) buf1 [OF assms(2), of "e_run F" "e_buffer F" "type1_arg d"]
    by (auto simp: E' run_args_def argbytes_simps)
  show ?thesis
    by (rule sim_append [OF assms(1,2), where t = 1 and a = "[type1_arg d]"])
       (use assms(6,7,8) nc ra fa(1) in \<open>simp_all add: E'\<close>)
qed

lemma sim_type2step:
  assumes "sim ch c E pxs" "ch = 3 \<or> ch = 4" "type2step ch d px E = Inr E'" "d = color_xor px c"
    and "type2mask d" "ch = 3 \<longrightarrow> alpha px = 255"
  shows "sim ch px E' (pxs @ [px])"
proof -
  let ?F = "flush_for ch 2 E"
  from assms(3) have r: "e_run ?F * 2 + 1 < 128"
    and E': "E' = ?F\<lparr>e_buffer := (e_buffer E)
                 [e_run ?F * 2 := type2_arg0 d, e_run ?F * 2 + 1 := type2_arg1 d],
              e_run := e_run ?F + 1, e_runtype := 2, e_cache := cache_put px (e_cache E)\<rparr>"
    by (simp_all add: type2step_Inr)
  have sF: "sim ch c ?F pxs" and bF: "e_run ?F \<noteq> 0 \<longrightarrow> e_runtype ?F = 2 \<and> e_run ?F < 32"
    using sim_flush_for [OF assms(1,2), of 2] by simp_all
  note fa = sim_facts [OF assms(1)]
  have nc: "\<forall>xs. next_color ch 2 c ([type2_arg0 d, type2_arg1 d] @ xs) = Inr (px, xs)"
    using next_color_2 [OF assms(5) [unfolded assms(4)]] unfolding assms(4) by blast
  have ra: "run_args ch E' = (if e_run ?F = 0 then [] else run_args ch ?F) @ [type2_arg0 d, type2_arg1 d]"
    using bF r fa(1) buf2 [OF assms(2), of "e_run ?F" "e_buffer E" "type2_arg0 d" "type2_arg1 d"]
    by (auto simp: E' run_args_def argbytes_simps flush_for_fields)
  show ?thesis
    by (rule sim_append [OF sF assms(2), where t = 2 and a = "[type2_arg0 d, type2_arg1 d]"])
       (use assms(6) bF nc ra fa(1) in \<open>auto simp: E' flush_for_fields\<close>)
qed

lemma type3step_Inr:
  assumes "type3step ch cur st = Inr st'" "ch = 3 \<or> ch = 4"
  shows "e_run (flush_for ch 3 st) * ch + (ch - 1) < 128"
    and "st' = (flush_for ch 3 st)\<lparr>e_buffer :=
                 (if ch = 4 then
                    (e_buffer st)[e_run (flush_for ch 3 st) * 4 := red cur,
                                  e_run (flush_for ch 3 st) * 4 + 1 := green cur,
                                  e_run (flush_for ch 3 st) * 4 + 2 := blue cur,
                                  e_run (flush_for ch 3 st) * 4 + 3 := alpha cur]
                  else
                    (e_buffer st)[e_run (flush_for ch 3 st) * 3 := red cur,
                                  e_run (flush_for ch 3 st) * 3 + 1 := green cur,
                                  e_run (flush_for ch 3 st) * 3 + 2 := blue cur]),
               e_run := e_run (flush_for ch 3 st) + 1, e_runtype := 3,
               e_cache := cache_put cur (e_cache st)\<rparr>"
  using assms
  by (auto simp: type3step_def bind_enc_def buf_store_def Let_def flush_for_fields
           split: if_splits)

lemma sim_type3step:
  assumes "sim ch c E pxs" "ch = 3 \<or> ch = 4" "type3step ch px E = Inr E'"
    and "ch = 3 \<longrightarrow> alpha px = 255"
  shows "sim ch px E' (pxs @ [px])"
proof -
  let ?F = "flush_for ch 3 E"
  note t3 = type3step_Inr [OF assms(3,2)]
  have sF: "sim ch c ?F pxs" and bF: "e_run ?F \<noteq> 0 \<longrightarrow> e_runtype ?F = 3 \<and> e_run ?F < 32"
    using sim_flush_for [OF assms(1,2), of 3] by simp_all
  note fa = sim_facts [OF assms(1)]
  from assms(2,4) fa(3) have al: "ch = 4 \<or> (ch = 3 \<and> alpha px = alpha c)" by auto
  have nc: "\<forall>xs. next_color ch 3 c (take ch (color_bytes px) @ xs) = Inr (px, xs)"
    using next_color_3 [OF al] by blast
  have ra: "run_args ch E' = (if e_run ?F = 0 then [] else run_args ch ?F) @ take ch (color_bytes px)"
  proof (cases "ch = 4")
    case True
    with t3(1) fa(1) have "e_run ?F * 4 + 3 < length (e_buffer E)" by simp
    from buf4 [OF this, of "red px" "green px" "blue px" "alpha px"] True bF show ?thesis
      by (auto simp: t3(2) run_args_def argbytes_simps flush_for_fields color_bytes_def)
  next
    case False
    with assms(2) have ch: "ch = 3" by simp
    with t3(1) fa(1) have "e_run ?F * 3 + 2 < length (e_buffer E)" by simp
    from buf3 [OF this, of "red px" "green px" "blue px"] ch bF show ?thesis
      by (auto simp: t3(2) run_args_def argbytes_simps flush_for_fields color_bytes_def)
  qed
  show ?thesis
    by (rule sim_append [OF sF assms(2), where t = 3 and a = "take ch (color_bytes px)"])
       (use assms(4) bF nc ra fa(1) in \<open>auto simp: t3(2) flush_for_fields\<close>)
qed

lemma sim_step:
  assumes "sim ch (e_current E) E pxs" "ch = 3 \<or> ch = 4" "enc_pixel ch E px = Inr E'"
    and "e_runtype E' = 1 \<longrightarrow> e_run E' \<le> 32" "ch = 3 \<longrightarrow> alpha px = 255"
  shows "sim ch px E' (pxs @ [px]) \<and> e_current E' = px"
proof -
  define c where "c = e_current E"
  define st where "st = E\<lparr>e_current := px\<rparr>"
  have s: "sim ch c st pxs" using assms(1) by (simp add: st_def c_def sim_current)
  note fa = sim_facts [OF s]
  show ?thesis
  proof (cases "px = c")
    case True
    show ?thesis
    proof (cases "e_runtype st = 0 \<and> e_run st < 526352")
      case run: True
      with True assms(3) have E': "E' = st\<lparr>e_run := e_run st + 1\<rparr>"
        by (simp add: enc_pixel_def Let_def st_def c_def)
      have "sim ch px E' (pxs @ [px])"
        by (rule sim_append [OF s assms(2), where t = 0 and a = "[]"])
           (use run True assms(5) fa(1) in \<open>simp_all add: E' run_args_def next_color_def\<close>)
      then show ?thesis by (simp add: E' st_def)
    next
      case False
      with True assms(3) have E': "E' = (RPK_PRINT ch 128 st)\<lparr>e_run := 1, e_runtype := 0\<rparr>"
        by (auto simp: enc_pixel_def Let_def st_def c_def)
      have s1: "sim ch c (RPK_PRINT ch 128 st) pxs"
        by (rule sim_flush [OF s assms(2)]) (simp_all add: RPK_PRINT_out RPK_PRINT_fields)
      have "sim ch px E' (pxs @ [px])"
        by (rule sim_append [OF s1 assms(2), where t = 0 and a = "[]"])
           (use True assms(5) fa(1) in
              \<open>simp_all add: E' run_args_def next_color_def RPK_PRINT_fields\<close>)
      then show ?thesis by (simp add: E' RPK_PRINT_fields st_def)
    qed
  next
    case ne: False
    define d where "d = color_xor px c"
    show ?thesis
    proof (cases "smallmask d \<and> e_run st \<noteq> 0 \<and> e_runtype st = 1")
      case True
      with ne assms(3) have sd: "smalldiff d px st = Inr E'"
        by (auto simp: enc_pixel_def Let_def st_def c_def d_def split: if_splits)
      then have cur: "e_current E' = px" and rt: "e_runtype E' = 1"
        by (simp_all add: smalldiff_Inr st_def)
      with assms(4) have b: "e_run E' \<le> 32" by simp
      from sim_smalldiff [OF s assms(2) sd d_def _ _ b assms(5)] True cur
      show ?thesis by simp
    next
      case nogoto: False
      show ?thesis
      proof (cases "px = e_cache st ! HASH px")
        case True
        with ne nogoto assms(3) have E': "E' = RPK_PRINT ch (HASH px) st"
          by (auto simp: enc_pixel_def Let_def st_def c_def d_def split: if_splits)
        have "sim ch px E' (pxs @ [px])"
          by (rule sim_index [OF s assms(2) _ assms(5)])
             (use True HASH_less [of px] in \<open>simp_all add: E' RPK_PRINT_out RPK_PRINT_fields\<close>)
        then show ?thesis by (simp add: E' RPK_PRINT_fields st_def)
      next
        case miss: False
        show ?thesis
        proof (cases "smallmask d \<and> e_runtype st \<noteq> 2")
          case True
          let ?F = "flush_for ch 1 st"
          from True ne nogoto miss assms(3) have sd: "smalldiff d px ?F = Inr E'"
            by (auto simp: enc_pixel_def Let_def st_def c_def d_def split: if_splits)
          then have cur: "e_current E' = px" and rt: "e_runtype E' = 1"
            by (simp_all add: smalldiff_Inr flush_for_fields st_def)
          with assms(4) have b: "e_run E' \<le> 32" by simp
          have sF: "sim ch c ?F pxs"
            and bF: "e_run ?F \<noteq> 0 \<longrightarrow> e_runtype ?F = 1 \<and> e_run ?F < 32"
            using sim_flush_for [OF s assms(2), of 1] by simp_all
          from sim_smalldiff [OF sF assms(2) sd d_def _ _ b assms(5)] True bF cur
          show ?thesis by simp
        next
          case no1: False
          show ?thesis
          proof (cases "type2mask d")
            case True
            with no1 ne nogoto miss assms(3) have t2: "type2step ch d px st = Inr E'"
              by (auto simp: enc_pixel_def Let_def st_def c_def d_def split: if_splits)
            then have cur: "e_current E' = px"
              by (simp add: type2step_Inr flush_for_fields st_def)
            from sim_type2step [OF s assms(2) t2 d_def True assms(5)] cur show ?thesis by simp
          next
            case False
            with no1 ne nogoto miss assms(3) have t3: "type3step ch px st = Inr E'"
              by (auto simp: enc_pixel_def Let_def st_def c_def d_def split: if_splits)
            then have cur: "e_current E' = px"
              using type3step_fields(5) [OF t3] by (simp add: st_def)
            from sim_type3step [OF s assms(2) t3 assms(5)] cur show ?thesis by simp
          qed
        qed
      qed
    qed
  qed
qed

lemma sim_init: "sim ch init_color enc_init []"
  unfolding sim_def
  by (intro exI [of _ dec_init] exI [of _ "[]"])
     (simp add: enc_init_def dec_init_def run_args_def pixel_bytes_simps cache_agree_def
        init_cache_def init_color_def mk_color_def)

lemma sim_pixels:
  "sim ch (e_current E) E pxs0 \<Longrightarrow> enc_pixels ch E pxs = Inr E' \<Longrightarrow> type1_bounded ch E pxs
     \<Longrightarrow> ch = 3 \<or> ch = 4 \<Longrightarrow> ch = 3 \<longrightarrow> (\<forall>p\<in>set pxs. alpha p = 255)
     \<Longrightarrow> sim ch (e_current E') E' (pxs0 @ pxs)"
proof (induction pxs arbitrary: E pxs0)
  case Nil
  then show ?case by simp
next
  case (Cons px pxs)
  from Cons.prems(2) obtain E1 where 1: "enc_pixel ch E px = Inr E1"
    and 2: "enc_pixels ch E1 pxs = Inr E'" by (auto split: sum.splits)
  from Cons.prems(3) 1 have b: "e_runtype E1 = 1 \<longrightarrow> e_run E1 \<le> 32"
    and tb: "type1_bounded ch E1 pxs" by simp_all
  from Cons.prems(5) have a: "ch = 3 \<longrightarrow> alpha px = 255"
    and as: "ch = 3 \<longrightarrow> (\<forall>p\<in>set pxs. alpha p = 255)" by simp_all
  from sim_step [OF Cons.prems(1,4) 1 b a]
  have "sim ch (e_current E1) E1 (pxs0 @ [px])" by simp
  from Cons.IH [OF this 2 tb Cons.prems(4) as] show ?case by simp
qed


section \<open>Claims\<close>

text \<open>
  C1 (round trip): decoding the file written for an image gives back the image, byte
  for byte.  The code breaks this on the image \<open>stripes33\<close> of 11 by 3 pixels with 4
  channels: its 33 pixels each differ from the one before in the lowest bit of red, the
  encoder lets the run of type 1 grow to 33 pixels, and the opcode \<open>PACKRUN(1, 32)\<close>
  it writes is read back as a run of type 2 of one pixel.  The file decodes to an image
  of mostly all-zero pixels.
\<close>

theorem C1_roundtrip_fails:
  "roundtrip 11 3 6 stripes33
     = Inr [[8, 2, 0, 255, 0, 0, 0, 0, 0, 0, 0, 0, 0, 0, 0, 0, 0, 0, 0, 0, 0, 0,
             0, 0, 0, 0, 0, 0, 0, 0, 0, 0, 0, 0, 0, 0, 0, 0, 0, 0, 0, 0, 0, 0],
            [0, 0, 0, 0, 0, 0, 0, 0, 0, 0, 0, 0, 0, 0, 0, 0, 0, 0, 0, 0, 0, 0,
             0, 0, 0, 0, 0, 0, 0, 0, 0, 0, 0, 0, 0, 0, 0, 0, 0, 0, 0, 0, 0, 0],
            [0, 0, 0, 0, 0, 0, 0, 0, 0, 0, 0, 0, 0, 0, 0, 0, 0, 0, 0, 0, 0, 0,
             0, 0, 0, 0, 0, 0, 0, 0, 0, 0, 0, 0, 0, 0, 0, 0, 0, 0, 0, 0, 0, 0]]
   \<and> image_bytes 4 stripes33
     = [[1, 0, 0, 255, 0, 0, 0, 255, 1, 0, 0, 255, 0, 0, 0, 255, 1, 0, 0, 255, 0, 0,
         0, 255, 1, 0, 0, 255, 0, 0, 0, 255, 1, 0, 0, 255, 0, 0, 0, 255, 1, 0, 0, 255],
        [0, 0, 0, 255, 1, 0, 0, 255, 0, 0, 0, 255, 1, 0, 0, 255, 0, 0, 0, 255, 1, 0,
         0, 255, 0, 0, 0, 255, 1, 0, 0, 255, 0, 0, 0, 255, 1, 0, 0, 255, 0, 0, 0, 255],
        [1, 0, 0, 255, 0, 0, 0, 255, 1, 0, 0, 255, 0, 0, 0, 255, 1, 0, 0, 255, 0, 0,
         0, 255, 1, 0, 0, 255, 0, 0, 0, 255, 1, 0, 0, 255, 0, 0, 0, 255, 1, 0, 0, 255]]
   \<and> roundtrip 11 3 6 stripes33 \<noteq> Inr (image_bytes 4 stripes33)"
  by (simp add: roundtrip_def image_bytes_def stripes33_def enc_eval dec_eval frame_eval)

text \<open>
  C2 (run length of types 1 to 3 at most 32): the jump of line 227 continues a run of
  type 1 without the test \<open>run==32\<close> of line 233.  After the 33 pixels of
  \<open>stripes33\<close> the pending run has type 1 and length 33, and the final flush writes
  the opcode \<open>PACKRUN(1, 32) = 0xC0\<close>, whose type bits read 2.
\<close>

theorem C2_long_type1_run:
  "map_sum id (\<lambda>st. (e_runtype st, e_run st)) (enc_rows 4 enc_init stripes33) = Inr (1, 33)
   \<and> rpk_encode 4 stripes33 = Inr ([PACKRUN 1 32] @
         [0x40, 0x40, 0x40, 0x40, 0x40, 0x40, 0x40, 0x40, 0x40, 0x40, 0x40,
          0x40, 0x40, 0x40, 0x40, 0x40, 0x40, 0x40, 0x40, 0x40, 0x40, 0x40,
          0x40, 0x40, 0x40, 0x40, 0x40, 0x40, 0x40, 0x40, 0x40, 0x40, 0x40] @ [0x00])
   \<and> PACKRUN 1 32 = 0xC0 \<and> opcode_type 0xC0 = 2"
  by (simp add: stripes33_def enc_eval opcode_type_def)

text \<open>
  C3, as amended: while the decoder consumes a run of type 0 (it continues one, or it
  reads the opcode of one), each produced pixel is \<open>current\<close> again, no argument byte
  is read, and the decoder stores \<open>current\<close> into the slot \<open>HASH(current)\<close> of the
  cache (line 332 is reached by every run type).  Every other slot is unchanged, and
  the cache as a whole is unchanged when that slot held \<open>current\<close> already.
\<close>

theorem C3_run0_pixel:
  assumes "dec_pixel ch st bs = Inr (st', rest, px)"
    and "(d_run st \<noteq> 0 \<and> d_runtype st = 0)
         \<or> (d_run st = 0 \<and> bs \<noteq> [] \<and> hd bs AND 0x80 = 0x80 \<and> opcode_type (hd bs) = 0)"
  shows "d_current st' = d_current st
       \<and> px = take ch (color_bytes (d_current st))
       \<and> d_cache st' = (d_cache st)[HASH (d_current st) := d_current st]
       \<and> (\<forall>i. i \<noteq> HASH (d_current st) \<longrightarrow> d_cache st' ! i = d_cache st ! i)
       \<and> (d_cache st ! HASH (d_current st) = d_current st \<longrightarrow> d_cache st' = d_cache st)
       \<and> (d_run st \<noteq> 0 \<longrightarrow> rest = bs \<and> d_run st' = d_run st - 1)"
proof -
  have main: "d_current st' = d_current st \<and> px = take ch (color_bytes (d_current st))
       \<and> d_cache st' = (d_cache st)[HASH (d_current st) := d_current st]
       \<and> (d_run st \<noteq> 0 \<longrightarrow> rest = bs \<and> d_run st' = d_run st - 1)"
    using assms
    by (auto simp: dec_pixel_def run_step_def next_color_def cache_put_def Let_def
             split: if_splits list.splits sum.splits prod.splits)
  then have c: "d_cache st' = (d_cache st)[HASH (d_current st) := d_current st]" by blast
  have "d_cache st' = d_cache st" if "d_cache st ! HASH (d_current st) = d_current st"
    using c that by (metis list_update_id)
  moreover have "d_cache st' ! i = d_cache st ! i" if "i \<noteq> HASH (d_current st)" for i
    using c that by simp
  ultimately show ?thesis using main by blast
qed

text \<open>Witness for C3: the opcode \<open>0x80\<close> read in the initial state.\<close>

theorem C3_run0_pixel_witness:
  "dec_pixel 4 dec_init [0x80]
     = Inr (dec_init\<lparr>d_cache := init_cache[71 := init_color]\<rparr>, [], [0, 0, 0, 255])
   \<and> d_run dec_init = 0 \<and> hd [0x80 :: byte] AND 0x80 = 0x80 \<and> opcode_type (hd [0x80]) = 0
   \<and> d_cache (dec_init\<lparr>d_cache := init_cache[71 := init_color]\<rparr>)
       = (d_cache dec_init)[HASH (d_current dec_init) := d_current dec_init]"
proof -
  have h: "dec_pixel 4 dec_init [0x80]
     = Inr (dec_init\<lparr>d_cache := init_cache[71 := init_color]\<rparr>, [], [0, 0, 0, 255])"
    by (simp add: dec_eval)
  have g: "(d_run dec_init \<noteq> 0 \<and> d_runtype dec_init = 0)
         \<or> (d_run dec_init = 0 \<and> [0x80 :: byte] \<noteq> [] \<and> hd [0x80 :: byte] AND 0x80 = 0x80
             \<and> opcode_type (hd [0x80]) = 0)"
    by (simp add: dec_init_def opcode_type_def)
  from C3_run0_pixel [OF h g] h g show ?thesis by simp
qed

text \<open>
  Counterexample to C3 as stated: the run opcode \<open>0x80\<close> read in the initial state
  changes slot 71 of the cache from the all-zero pixel to opaque black.
\<close>

theorem C3_counterexample:
  "dec_pixel 4 dec_init [0x80]
     = Inr (dec_init\<lparr>d_cache := init_cache[71 := init_color]\<rparr>, [], [0, 0, 0, 255])
   \<and> init_cache[71 := init_color] ! 71 \<noteq> d_cache dec_init ! 71"
  by (simp add: dec_eval)

text \<open>
  C4, as amended: take any sequence of pixels (4 channels, or 3 channels with alpha 255
  throughout) on which the encoder never holds a pending run of type 1 of more than 32
  pixels.  After the encoder has consumed the pixels, the bytes it has emitted for them
  (its output with the pending run flushed) decode to exactly these pixels with no byte
  left, the decoder's \<open>current\<close> is the encoder's, and the decoder's cache agrees with
  the encoder's slot for slot, except that slot 71, the hash of \<open>(0,0,0,255)\<close>, may
  hold \<open>(0,0,0,255)\<close> on the decoder's side while it is still all-zero on the
  encoder's side.
\<close>

theorem C4_cache_coherence:
  assumes "enc_pixels ch enc_init pxs = Inr E" "type1_bounded ch enc_init pxs"
    and "ch = 4 \<or> (ch = 3 \<and> (\<forall>p\<in>set pxs. alpha p = 255))"
  shows "\<exists>D. dec_pixels ch (length pxs) dec_init (e_out (RPK_PRINT ch 128 E))
               = Inr (D, [], pixel_bytes ch pxs)
            \<and> d_current D = e_current E
            \<and> cache_agree (d_cache D) (e_cache E)"
proof -
  from assms(3) have ch: "ch = 3 \<or> ch = 4" and al: "ch = 3 \<longrightarrow> (\<forall>p\<in>set pxs. alpha p = 255)"
    by auto
  have "sim ch (e_current enc_init) enc_init []" using sim_init by (simp add: enc_init_def)
  from sim_pixels [OF this assms(1,2) ch al] have s: "sim ch (e_current E) E pxs" by simp
  from sim_flushed [OF s ch] obtain D where
    D: "\<forall>xs. dec_pixels ch (length pxs) dec_init (e_out E @ pend ch E @ xs)
                  = Inr (D, xs, pixel_bytes ch pxs)"
       "d_current D = e_current E" "cache_agree (d_cache D) (e_cache E)" by blast
  from D(1) have "dec_pixels ch (length pxs) dec_init (e_out E @ pend ch E @ [])
                  = Inr (D, [], pixel_bytes ch pxs)" by blast
  with D(2,3) show ?thesis by (intro exI [of _ D]) (simp add: RPK_PRINT_out)
qed

text \<open>
  Witness for C4: the two pixels \<open>(0,0,0,255)\<close>, \<open>(1,0,0,255)\<close> with 4 channels; the
  encoder has written \<open>0x80\<close> and holds a run of type 1 of one pixel.
\<close>

theorem C4_cache_coherence_witness:
  "enc_pixels 4 enc_init [px_b, px_a]
     = Inr (enc_init\<lparr>e_cache := init_cache[HASH px_a := px_a], e_current := px_a,
                      e_buffer := (replicate 128 0)[0 := 0x40], e_runtype := 1, e_run := 1,
                      e_out := [0x80]\<rparr>)
   \<and> type1_bounded 4 enc_init [px_b, px_a]
   \<and> (\<exists>D. dec_pixels 4 (length [px_b, px_a]) dec_init
              (e_out (RPK_PRINT 4 128
                 (enc_init\<lparr>e_cache := init_cache[HASH px_a := px_a], e_current := px_a,
                      e_buffer := (replicate 128 0)[0 := 0x40], e_runtype := 1, e_run := 1,
                      e_out := [0x80]\<rparr>)))
            = Inr (D, [], pixel_bytes 4 [px_b, px_a])
          \<and> d_current D = px_a
          \<and> cache_agree (d_cache D) (init_cache[HASH px_a := px_a]))"
proof -
  let ?E = "enc_init\<lparr>e_cache := init_cache[HASH px_a := px_a], e_current := px_a,
                      e_buffer := (replicate 128 0)[0 := 0x40], e_runtype := 1, e_run := 1,
                      e_out := [0x80]\<rparr>"
  have e: "enc_pixels 4 enc_init [px_b, px_a] = Inr ?E" by (simp add: enc_eval)
  have b: "type1_bounded 4 enc_init [px_b, px_a]" by (simp add: enc_eval)
  have c: "(4::nat) = 4 \<or> ((4::nat) = 3 \<and> (\<forall>p\<in>set [px_b, px_a]. alpha p = 255))" by simp
  from C4_cache_coherence [OF e b c] e b show ?thesis by simp
qed

text \<open>
  Counterexample to C4 as stated: after the single pixel \<open>(0,0,0,255)\<close> the encoder's
  cache is still all-zero; the byte emitted for the pixel is \<open>0x80\<close>, and the decoder
  that has consumed it holds \<open>(0,0,0,255)\<close> in slot 71.
\<close>

theorem C4_counterexample:
  "enc_pixels 4 enc_init [px_b] = Inr (enc_init\<lparr>e_runtype := 0, e_run := 1\<rparr>)
   \<and> e_out (RPK_PRINT 4 128 (enc_init\<lparr>e_runtype := 0, e_run := 1\<rparr>)) = [0x80]
   \<and> dec_pixels 4 1 dec_init [0x80]
       = Inr (dec_init\<lparr>d_cache := init_cache[71 := init_color]\<rparr>, [], [0, 0, 0, 255])
   \<and> d_cache (dec_init\<lparr>d_cache := init_cache[71 := init_color]\<rparr>)
       \<noteq> e_cache (enc_init\<lparr>e_runtype := 0, e_run := 1\<rparr>)"
proof -
  have "init_cache[71 := init_color] ! 71 \<noteq> init_cache ! 71"
    by (simp add: init_cache_def init_color_def zero_color_def mk_color_def)
  then have "init_cache[71 := init_color] \<noteq> init_cache" by metis
  moreover have "enc_pixels 4 enc_init [px_b] = Inr (enc_init\<lparr>e_runtype := 0, e_run := 1\<rparr>)"
    by (simp add: enc_eval)
  moreover have "e_out (RPK_PRINT 4 128 (enc_init\<lparr>e_runtype := 0, e_run := 1\<rparr>)) = [0x80]"
    by (simp add: enc_eval)
  moreover have "dec_pixels 4 1 dec_init [0x80]
       = Inr (dec_init\<lparr>d_cache := init_cache[71 := init_color]\<rparr>, [], [0, 0, 0, 255])"
    by (simp add: dec_eval)
  ultimately show ?thesis by (simp add: enc_init_def dec_init_def)
qed

text \<open>
  C5, as amended: for every image that \<open>rpk_write\<close> encodes to the end (the
  argument buffer is not overrun), the last byte written by the encoder's
  end-of-image flush (\<open>RPK_PRINT(0)\<close>) is \<open>0x00\<close>, the first byte of the footer; the
  framer then writes six zero bytes and the terminator \<open>0x01\<close>, so the file ends
  with seven zero bytes and \<open>0x01\<close>.
\<close>

theorem C5_footer:
  assumes "rpk_write width height color_type rows = Inr bytes"
  shows "\<exists>payload.
           rpk_encode (unat (3 + (drop_bit 2 color_type AND 1))) rows = Inr (payload @ [0x00])
         \<and> bytes = magic @ be32 width @ be32 height @ [3 + (drop_bit 2 color_type AND 1), 0]
                    @ payload @ [0x00] @ [0, 0, 0, 0, 0, 0, 0x01]
         \<and> drop (length bytes - 8) bytes = [0, 0, 0, 0, 0, 0, 0, 0x01]"
proof -
  define ch where "ch = unat (3 + (drop_bit 2 color_type AND 1))"
  from assms obtain bs where enc: "rpk_encode ch rows = Inr bs"
    and fl: "bytes = magic @ be32 width @ be32 height @ [3 + (drop_bit 2 color_type AND 1), 0]
                    @ bs @ footer7"
    by (auto simp: rpk_write_def Let_def ch_def split: sum.splits)
  from enc obtain st where "bs = e_out (RPK_PRINT ch 0 st)"
    by (auto simp: rpk_encode_def split: sum.splits)
  with RPK_PRINT_0_last obtain payload where bs: "bs = payload @ [0]" by metis
  show ?thesis
    using enc fl unfolding bs ch_def
    by (intro exI [of _ payload]) (simp add: footer7_def magic_def be32_def)
qed

text \<open>Witness for C5: the file of the image of 1 by 2 opaque black pixels with 3 channels.\<close>

theorem C5_footer_witness:
  "rpk_write 1 2 2 black2 = Inr (magic @ be32 1 @ be32 2 @ [3, 0] @ [0x81, 0] @ footer7)
   \<and> (\<exists>payload. rpk_encode 3 black2 = Inr (payload @ [0x00])
        \<and> drop (length (magic @ be32 1 @ be32 2 @ [3, 0] @ [0x81, 0] @ footer7) - 8)
             (magic @ be32 1 @ be32 2 @ [3, 0] @ [0x81, 0] @ footer7)
           = [0, 0, 0, 0, 0, 0, 0, 0x01])"
proof -
  have h: "rpk_write 1 2 2 black2 = Inr (magic @ be32 1 @ be32 2 @ [3, 0] @ [0x81, 0] @ footer7)"
    by (simp add: black2_def enc_eval frame_eval)
  from C5_footer [OF h] show ?thesis using h by auto
qed

text \<open>
  Counterexample to C5 as stated: for the image of 1 by 2 opaque black pixels the
  encoder writes \<open>81 00\<close> (a run of type 0 of length 2, then the flush), so its last
  byte is not \<open>0x01\<close>; the terminator is the last of the seven bytes of the framer.
\<close>

theorem C5_counterexample:
  "rpk_encode 3 black2 = Inr [0x81, 0x00] \<and> last [0x81, 0x00 :: byte] \<noteq> 0x01
   \<and> rpk_write 1 2 2 black2
       = Inr (magic @ be32 1 @ be32 2 @ [3, 0] @ [0x81, 0x00] @ [0, 0, 0, 0, 0, 0, 0x01])"
  by (simp add: black2_def enc_eval frame_eval)





text \<open>
  C8 (every store into \<open>buffer\<close> is in bounds): the run of type 1 that the jump of
  line 227 continues has no bound on its length.  On the image \<open>stripes129\<close> of 43 by
  3 pixels with 4 channels, every pixel continues the run; the 129th pixel is stored at
  \<open>buffer[128]\<close>, outside the array of 128 bytes.
\<close>

theorem C8_buffer_overrun:
  "rpk_encode 4 stripes129 = Inl BufferOverrun"
  by (simp add: stripes129_def enc_eval)

text \<open>
  C9: reading a file whose first three bytes are not \<open>"rpk"\<close> fails at the check of
  the magic string (\<open>BadMagic\<close>) with everything after the first three bytes unread;
  a file that starts with \<open>"rpk"\<close> and ends before its 13 header bytes are complete
  fails with \<open>Truncated\<close>; whenever a file decodes, every cut of it inside the part
  the decoder has read (from the third byte on) fails with \<open>Truncated\<close> with no
  input left; and for 3 or 4 channels (at most 4) and at least one row, the decoder
  proper has no other failure than \<open>Truncated\<close> at the end of the input.
\<close>

theorem C9_errors:
  "(take 3 bs \<noteq> magic \<longrightarrow> rpk_read f bs = Inl (BadMagic, drop 3 bs))
   \<and> (take 3 hs = magic \<and> length hs < 13 \<longrightarrow> rpk_read f hs = Inl (Truncated, []))
   \<and> (rpk_read f fs = Inr (rows, rest) \<and> 3 \<le> n \<and> n < length fs - length rest
        \<longrightarrow> rpk_read f (take n fs) = Inl (Truncated, []))
   \<and> (rpk_decode ch w h ps = Inl (e, r) \<and> ch \<le> 4 \<and> h \<noteq> 0 \<longrightarrow> e = Truncated \<and> r = [])"
proof (intro conjI impI)
  show "rpk_read f bs = Inl (BadMagic, drop 3 bs)" if "take 3 bs \<noteq> magic"
    using that by (simp add: rpk_read_def)
  show "rpk_read f hs = Inl (Truncated, [])" if "take 3 hs = magic \<and> length hs < 13"
  proof -
    from that have "length (take 3 hs) = 3" by (simp add: magic_def)
    then have "3 \<le> length hs" by simp
    moreover from that have "length hs - 3 < 10" by arith
    ultimately show ?thesis using that by (simp add: rpk_read_def Let_def)
  qed
  show "rpk_read f (take n fs) = Inl (Truncated, [])"
    if "rpk_read f fs = Inr (rows, rest) \<and> 3 \<le> n \<and> n < length fs - length rest"
    using that rpk_read_prefix by blast
  assume a: "rpk_decode ch w h ps = Inl (e, r) \<and> ch \<le> 4 \<and> h \<noteq> 0"
  then have "dec_rows ch w h dec_init ps = Inl (e, r)"
    by (auto simp: rpk_decode_def split: sum.splits)
  with a dec_rows_err show "e = Truncated" and "r = []" by blast+
qed


text \<open>
  Witness for C9: the upper-case magic \<open>"RPK"\<close> followed by two bytes, a header cut
  after 7 bytes, and the file of a 1 by 1 image whose payload \<open>90 02\<close> is cut after
  the opcode \<open>90\<close> (scenario 6 of the specification).
\<close>

theorem C9_errors_witness:
  "take 3 [0x52, 0x50, 0x4B, 1, 2 :: byte] \<noteq> magic
   \<and> rpk_read (\<lambda>w h c. True) [0x52, 0x50, 0x4B, 1, 2] = Inl (BadMagic, [1, 2])
   \<and> take 3 (magic @ [0, 0, 0, 1]) = magic \<and> length (magic @ [0, 0, 0, 1 :: byte]) < 13
   \<and> rpk_read (\<lambda>w h c. True) (magic @ [0, 0, 0, 1]) = Inl (Truncated, [])
   \<and> rpk_read (\<lambda>w h c. True) (magic @ be32 1 @ be32 1 @ [3, 0] @ [0x90, 2] @ [0] @ footer7)
        = Inr ([[0, 0, 0]], [0] @ footer7)
   \<and> rpk_read (\<lambda>w h c. True) (magic @ be32 1 @ be32 1 @ [3, 0] @ [0x90]) = Inl (Truncated, [])
   \<and> rpk_decode 3 1 1 [0x90] = Inl (Truncated, [])"
proof -
  let ?f = "\<lambda>(w :: 32 word) (h :: 32 word) (c :: byte). True"
  let ?file = "magic @ be32 1 @ be32 1 @ [3, 0] @ [0x90, 2] @ [0] @ footer7"
  have a: "take 3 [0x52, 0x50, 0x4B, 1, 2 :: byte] \<noteq> magic" by (simp add: magic_def)
  have b: "take 3 (magic @ [0, 0, 0, 1]) = magic \<and> length (magic @ [0, 0, 0, 1 :: byte]) < 13"
    by (simp add: magic_def)
  have c: "rpk_read ?f ?file = Inr ([[0, 0, 0]], [0] @ footer7)"
    by (simp add: dec_eval frame_eval)
  have n: "(3::nat) \<le> 14 \<and> 14 < length ?file - length ([0] @ footer7)"
    by (simp add: frame_eval)
  have t: "take 14 ?file = magic @ be32 1 @ be32 1 @ [3, 0] @ [0x90]"
    by (simp add: frame_eval)
  have d: "rpk_decode 3 1 1 [0x90] = Inl (Truncated, [])" by (simp add: dec_eval)
  from C9_errors [of "[0x52, 0x50, 0x4B, 1, 2]" ?f "magic @ [0, 0, 0, 1]" ?file "[[0, 0, 0]]"
      "[0] @ footer7" 14 3 1 1 "[0x90]" Truncated "[]"] a b c n t d
  show ?thesis by simp
qed

text \<open>
  C10: the initial cache satisfies the invariant \<open>cache_ok\<close> (every slot holds the
  all-zero pixel or a pixel whose hash is the slot's index); a store of \<open>p\<close> at
  \<open>HASH p\<close> preserves it; one pixel of the encoder and one pixel of the decoder leave
  the cache as it is or store a pixel at the index of its hash; hence every state the
  encoder reaches on any pixels and every state the decoder reaches on any bytes
  satisfies the invariant.
\<close>

theorem C10_cache_invariant:
  "cache_ok init_cache
   \<and> (cache_ok cache \<longrightarrow> cache_ok (cache_put p cache))
   \<and> (enc_pixel ch est0 px = Inr est1 \<longrightarrow>
        e_cache est1 = e_cache est0 \<or> e_cache est1 = (e_cache est0)[HASH px := px])
   \<and> (dec_pixel ch dst0 bs0 = Inr (dst1, rest0, out0) \<longrightarrow>
        d_cache dst1 = d_cache dst0
        \<or> d_cache dst1 = (d_cache dst0)[HASH (d_current dst1) := d_current dst1])
   \<and> (enc_pixels ch enc_init pxs = Inr est \<longrightarrow> cache_ok (e_cache est))
   \<and> (dec_pixels ch n dec_init bs = Inr (dst, rest, out) \<longrightarrow> cache_ok (d_cache dst))"
proof (intro conjI impI)
  show "cache_ok init_cache" by (rule cache_ok_init)
  show "cache_ok (cache_put p cache)" if "cache_ok cache" using that by (rule cache_ok_put)
  show "e_cache est1 = e_cache est0 \<or> e_cache est1 = (e_cache est0)[HASH px := px]"
    if "enc_pixel ch est0 px = Inr est1"
    using enc_pixel_cache [OF that] by (simp add: cache_put_def)
  show "d_cache dst1 = d_cache dst0
        \<or> d_cache dst1 = (d_cache dst0)[HASH (d_current dst1) := d_current dst1]"
    if "dec_pixel ch dst0 bs0 = Inr (dst1, rest0, out0)"
    using dec_pixel_cache [OF that] by (simp add: cache_put_def)
  show "cache_ok (e_cache est)" if "enc_pixels ch enc_init pxs = Inr est"
    using enc_pixels_cache_ok [OF that] by (simp add: enc_init_def cache_ok_init)
  show "cache_ok (d_cache dst)" if "dec_pixels ch n dec_init bs = Inr (dst, rest, out)"
    using dec_pixels_cache_ok [OF that] by (simp add: dec_init_def cache_ok_init)
qed

text \<open>
  Witness for C10: the encoder on the pixel \<open>(1,0,0,255)\<close> and the decoder on the
  opcode \<open>0x80\<close>, both from their initial states.
\<close>

theorem C10_cache_invariant_witness:
  "cache_ok init_cache \<and> cache_ok (cache_put px_a init_cache)
   \<and> enc_pixel 4 enc_init px_a
       = Inr (enc_init\<lparr>e_cache := init_cache[HASH px_a := px_a], e_current := px_a,
                        e_buffer := (replicate 128 0)[0 := 0x40], e_runtype := 1, e_run := 1\<rparr>)
   \<and> dec_pixel 4 dec_init [0x80]
       = Inr (dec_init\<lparr>d_cache := init_cache[HASH init_color := init_color]\<rparr>, [], [0, 0, 0, 255])
   \<and> enc_pixels 4 enc_init [px_a]
       = Inr (enc_init\<lparr>e_cache := init_cache[HASH px_a := px_a], e_current := px_a,
                        e_buffer := (replicate 128 0)[0 := 0x40], e_runtype := 1, e_run := 1\<rparr>)
   \<and> cache_ok (init_cache[HASH px_a := px_a])
   \<and> dec_pixels 4 1 dec_init [0x80]
       = Inr (dec_init\<lparr>d_cache := init_cache[HASH init_color := init_color]\<rparr>, [], [0, 0, 0, 255])
   \<and> cache_ok (init_cache[HASH init_color := init_color])"
proof -
  let ?E = "enc_init\<lparr>e_cache := init_cache[HASH px_a := px_a], e_current := px_a,
                        e_buffer := (replicate 128 0)[0 := 0x40], e_runtype := 1, e_run := 1\<rparr>"
  let ?D = "dec_init\<lparr>d_cache := init_cache[HASH init_color := init_color]\<rparr>"
  have e1: "enc_pixel 4 enc_init px_a = Inr ?E" by (simp add: enc_eval)
  have d1: "dec_pixel 4 dec_init [0x80] = Inr (?D, [], [0, 0, 0, 255])" by (simp add: dec_eval)
  have e2: "enc_pixels 4 enc_init [px_a] = Inr ?E" using e1 by simp
  have d2: "dec_pixels 4 1 dec_init [0x80] = Inr (?D, [], [0, 0, 0, 255])" using d1 by simp
  from C10_cache_invariant [of init_cache px_a 4 enc_init px_a ?E dec_init "[0x80]" ?D "[]"
      "[0, 0, 0, 255]" "[px_a]" ?E 1 "[0x80]" ?D "[]" "[0, 0, 0, 255]"] e1 d1 e2 d2
  show ?thesis by simp
qed

end
